theory Spec2Isabelle
  imports Main
begin

section \<open>The Brocade NOS switch driver (hil/ext/switches/brocade.py)\<close>

text \<open>
  The driver talks to the switch over an XML REST interface. Every method of the class
  \<open>Brocade\<close> is embedded as a function that takes the log of the requests sent so far
  and returns its result together with the extended log; an exception is a result
  \<open>Inl e\<close>. The device is a parameter: it answers a request knowing the requests that
  came before.
\<close>

subsection \<open>Exceptions\<close>

datatype error =
    BadArgumentError
  | SwitchError
  | AssertionError
  | AttributeError
  | TypeError
  | ValueError
  | XMLSyntaxError

subsection \<open>XML documents as lxml.etree reads them\<close>

text \<open>
  An element has a tag (namespace in braces first), a text that may be missing
  (\<open>None\<close> in Python for an empty element) and its child elements in document order.
\<close>

datatype xml = Element (tag: string) (etext: "string option") (children: "xml list")

text \<open>
  \<open>Element.find(tag)\<close> with a plain tag is the first direct child with that tag, or
  None. On None itself (the result of an earlier find that found nothing) the attribute
  access raises AttributeError; so does \<open>.text\<close>.
\<close>

fun find_elem :: "xml option \<Rightarrow> string \<Rightarrow> error + xml option" where
  "find_elem None t = Inl AttributeError"
| "find_elem (Some e) t = Inr (List.find (\<lambda>c. tag c = t) (children e))"

fun text_of :: "xml option \<Rightarrow> error + string option" where
  "text_of None = Inl AttributeError"
| "text_of (Some e) = Inr (etext e)"

subsection \<open>Requests, responses and the device\<close>

datatype http_method = GET | POST | PUT | DELETE

record request =
  req_method :: http_method
  req_url :: string
  req_data :: "string option"

text \<open>
  A response carries the status code and the body as \<open>etree.fromstring\<close> reads it:
  \<open>None\<close> when the text is not well-formed XML.
\<close>

record response =
  status_code :: nat
  doc :: "xml option"

text \<open>
  The transport: \<open>respond\<close> is the device (its answer to a request after the requests
  already sent), \<open>is_error\<close> tells which status codes the session reads as a failure
  when the caller does not list them as acceptable.
\<close>

record transport =
  respond :: "request list \<Rightarrow> request \<Rightarrow> response"
  is_error :: "nat \<Rightarrow> bool"

record brocade =
  hostname :: string
  interface_type :: string

type_synonym 'a io = "request list \<Rightarrow> (error + 'a) \<times> request list"

definition return_io :: "'a \<Rightarrow> 'a io" where
  "return_io x log = (Inr x, log)"

definition raise_io :: "error \<Rightarrow> 'a io" where
  "raise_io e log = (Inl e, log)"

definition lift_io :: "error + 'a \<Rightarrow> 'a io" where
  "lift_io r log = (r, log)"

definition bind_io :: "'a io \<Rightarrow> ('a \<Rightarrow> 'b io) \<Rightarrow> 'b io" where
  "bind_io m f log =
     (case m log of
        (Inl e, log') \<Rightarrow> (Inl e, log')
      | (Inr x, log') \<Rightarrow> f x log')"

text \<open>\<open>try: ... except AttributeError: return d\<close>\<close>

definition except_AttributeError :: "'a io \<Rightarrow> 'a \<Rightarrow> 'a io" where
  "except_AttributeError m d log =
     (case m log of
        (Inl AttributeError, log') \<Rightarrow> (Inr d, log')
      | other \<Rightarrow> other)"

text \<open>
  Modelled from the spec: \<open>_make_request\<close> of \<open>hil/ext/switches/_vlan_http.py\<close>, which
  is not among the sources. The spec (sections 6 and 7): it performs one request
  (method, resource path, optional body) and returns the response; a status code that
  is a failure and is not in the call's acceptable codes is raised as SwitchError, and
  nothing is retried.
\<close>

definition make_request ::
  "transport \<Rightarrow> http_method \<Rightarrow> string \<Rightarrow> string option \<Rightarrow> nat list \<Rightarrow> response io" where
  "make_request tr m u d acceptable_error_codes log =
     (let rq = \<lparr>req_method = m, req_url = u, req_data = d\<rparr>;
          r = respond tr log rq
      in if is_error tr (status_code r) \<and> status_code r \<notin> set acceptable_error_codes
         then (Inl SwitchError, log @ [rq])
         else (Inr r, log @ [rq]))"

text \<open>
  \<open>requests.put\<close> of the requests library: it sends the request and returns the
  response whatever its status code.
\<close>

definition requests_put :: "transport \<Rightarrow> string \<Rightarrow> string option \<Rightarrow> response io" where
  "requests_put tr u d log =
     (let rq = \<lparr>req_method = PUT, req_url = u, req_data = d\<rparr>
      in (Inr (respond tr log rq), log @ [rq]))"

definition fromstring :: "response \<Rightarrow> error + xml" where
  "fromstring r = (case doc r of None \<Rightarrow> Inl XMLSyntaxError | Some root \<Rightarrow> Inr root)"

subsection \<open>Resource paths and tags\<close>

definition construct_url :: "brocade \<Rightarrow> string \<Rightarrow> string \<Rightarrow> string" where
  "construct_url sw interface suffix =
     hostname sw @ ''/rest/config/running/interface/'' @ interface_type sw
       @ ''/%22'' @ interface @ ''%22''
       @ (if suffix \<noteq> [] then ''/switchport/'' @ suffix else [])"

definition construct_tag :: "string \<Rightarrow> string" where
  "construct_tag name = ''{urn:brocade.com:mgmt:brocade-interface}'' @ name"

subsection \<open>Shutting a port down and reading its state\<close>

definition port_shutdown :: "brocade \<Rightarrow> transport \<Rightarrow> string \<Rightarrow> unit io" where
  "port_shutdown sw tr interface =
     bind_io (make_request tr POST (construct_url sw interface [])
                (Some ''<shutdown>true</shutdown>'') [409])
       (\<lambda>_. return_io ())"

definition is_interface_off :: "brocade \<Rightarrow> transport \<Rightarrow> string \<Rightarrow> bool io" where
  "is_interface_off sw tr interface =
     bind_io (make_request tr GET (construct_url sw interface []) None []) (\<lambda>response.
     bind_io (lift_io (fromstring response)) (\<lambda>root.
     bind_io (lift_io (find_elem (Some root) (construct_tag ''shutdown''))) (\<lambda>shutdown.
       case shutdown of
         None \<Rightarrow> return_io False
       | Some e \<Rightarrow>
           if etext e = Some ''true'' then return_io True
           else raise_io SwitchError)))"

definition get_mode :: "brocade \<Rightarrow> transport \<Rightarrow> string \<Rightarrow> string option io" where
  "get_mode sw tr interface =
     bind_io (make_request tr GET (construct_url sw interface ''mode'') None []) (\<lambda>response.
     bind_io (lift_io (fromstring response)) (\<lambda>root.
     bind_io (lift_io (find_elem (Some root) (construct_tag ''vlan-mode''))) (\<lambda>elem.
     bind_io (lift_io (text_of elem)) (\<lambda>mode.
       return_io mode))))"

subsection \<open>Changing the state of a port\<close>

definition enable_and_set_mode :: "brocade \<Rightarrow> transport \<Rightarrow> string \<Rightarrow> string \<Rightarrow> unit io" where
  "enable_and_set_mode sw tr interface mode =
     (let url = construct_url sw interface [] in
      bind_io (is_interface_off sw tr interface) (\<lambda>off.
      bind_io (if off
               then bind_io (make_request tr DELETE (url @ ''/shutdown'') None [])
                      (\<lambda>_. return_io ())
               else return_io ()) (\<lambda>_.
      bind_io (make_request tr POST url (Some ''<switchport></switchport>'') [409]) (\<lambda>_.
        if mode \<in> set [''access'', ''trunk'']
        then bind_io (make_request tr PUT (construct_url sw interface ''mode'')
                        (Some (''<mode><vlan-mode>'' @ mode @ ''</vlan-mode></mode>'')) [])
               (\<lambda>_. return_io ())
        else raise_io AssertionError))))"

definition disable_native_tag :: "brocade \<Rightarrow> transport \<Rightarrow> string \<Rightarrow> unit io" where
  "disable_native_tag sw tr interface =
     bind_io (make_request tr DELETE (construct_url sw interface ''trunk/tag/native-vlan'')
                None [404])
       (\<lambda>_. return_io ())"

text \<open>The VLAN arrives as the text that \<open>%s\<close> prints for it.\<close>

definition add_vlan_to_trunk :: "brocade \<Rightarrow> transport \<Rightarrow> string \<Rightarrow> string \<Rightarrow> unit io" where
  "add_vlan_to_trunk sw tr interface vlan =
     bind_io (enable_and_set_mode sw tr interface ''trunk'') (\<lambda>_.
     bind_io (make_request tr PUT (construct_url sw interface ''trunk/allowed/vlan'')
                (Some (''<vlan><add>'' @ vlan @ ''</vlan></vlan>'')) [])
       (\<lambda>_. return_io ()))"

definition remove_vlan_from_trunk :: "brocade \<Rightarrow> transport \<Rightarrow> string \<Rightarrow> string \<Rightarrow> unit io" where
  "remove_vlan_from_trunk sw tr interface vlan =
     bind_io (make_request tr PUT (construct_url sw interface ''trunk/allowed/vlan'')
                (Some (''<vlan><remove>'' @ vlan @ ''</remove></vlan>'')) [])
       (\<lambda>_. return_io ())"

definition remove_all_vlans_from_trunk :: "brocade \<Rightarrow> transport \<Rightarrow> string \<Rightarrow> unit io" where
  "remove_all_vlans_from_trunk sw tr interface =
     bind_io (requests_put tr (construct_url sw interface ''trunk/allowed/vlan'')
                (Some ''<vlan><none>true</none></vlan>''))
       (\<lambda>_. return_io ())"

definition set_native_vlan :: "brocade \<Rightarrow> transport \<Rightarrow> string \<Rightarrow> string \<Rightarrow> unit io" where
  "set_native_vlan sw tr interface vlan =
     bind_io (enable_and_set_mode sw tr interface ''trunk'') (\<lambda>_.
     bind_io (disable_native_tag sw tr interface) (\<lambda>_.
     bind_io (make_request tr PUT (construct_url sw interface ''trunk'')
                (Some (''<trunk><native-vlan>'' @ vlan @ ''</native-vlan></trunk>'')) [])
       (\<lambda>_. return_io ())))"

definition remove_native_vlan :: "brocade \<Rightarrow> transport \<Rightarrow> string \<Rightarrow> unit io" where
  "remove_native_vlan sw tr interface =
     bind_io (make_request tr DELETE (construct_url sw interface ''trunk/native-vlan'') None [])
       (\<lambda>_. return_io ())"

definition get_native_vlan ::
  "brocade \<Rightarrow> transport \<Rightarrow> string \<Rightarrow> (string \<times> string option) option io" where
  "get_native_vlan sw tr interface =
     except_AttributeError
       (bind_io (make_request tr GET (construct_url sw interface ''trunk'') None []) (\<lambda>response.
        bind_io (lift_io (fromstring response)) (\<lambda>root.
        bind_io (lift_io (find_elem (Some root) (construct_tag ''native-vlan''))) (\<lambda>elem.
        bind_io (lift_io (text_of elem)) (\<lambda>vlan.
          return_io (Some (''vlan/native'', vlan)))))))
       None"

subsection \<open>Regular expressions as Python's re module matches them\<close>

text \<open>
  The two patterns of the driver use digits, literal characters, the anchors, grouping,
  \<open>?\<close>, \<open>*\<close> and \<open>+\<close>. The matcher is a backtracking one: \<open>ends n r s\<close> lists, in
  the order in which Python tries them (greedy first), the texts left after each way of
  matching \<open>r\<close> at the front of \<open>s\<close>; \<open>n\<close> is the length of the whole subject, which
  tells \<open>^\<close> where the start is. \<open>\d\<close> is an ASCII digit (the module is Python 2,
  where a pattern without the UNICODE flag knows no other digit); \<open>$\<close> holds at the
  end and before a newline that ends the subject; a repetition stops after an iteration
  that consumed nothing.
\<close>

datatype regex =
    Digit
  | Lit char
  | Bos
  | Eos
  | Seq regex regex
  | Opt regex
  | Star regex

definition Plus :: "regex \<Rightarrow> regex" where
  "Plus r = Seq r (Star r)"

definition is_digit :: "char \<Rightarrow> bool" where
  "is_digit c = (c \<in> set ''0123456789'')"

function ends :: "nat \<Rightarrow> regex \<Rightarrow> string \<Rightarrow> string list" where
  "ends n Digit s = (case s of [] \<Rightarrow> [] | c # cs \<Rightarrow> if is_digit c then [cs] else [])"
| "ends n (Lit a) s = (case s of [] \<Rightarrow> [] | c # cs \<Rightarrow> if c = a then [cs] else [])"
| "ends n Bos s = (if length s = n then [s] else [])"
| "ends n Eos s = (if s = [] \<or> s = [CHR 0x0A] then [s] else [])"
| "ends n (Seq r1 r2) s = concat (map (ends n r2) (ends n r1 s))"
| "ends n (Opt r) s = ends n r s @ [s]"
| "ends n (Star r) s =
     concat (map (ends n (Star r)) (filter (\<lambda>t. length t < length s) (ends n r s))) @ [s]"
  by pat_completeness auto
termination
  by (relation "measures [\<lambda>(n, r, s). size r, \<lambda>(n, r, s). length s]") auto

text \<open>The equation of the repetition is used by hand: as a rewrite rule it does not end.\<close>

declare ends.simps(7) [simp del]

text \<open>\<open>re.match\<close>: the first way of matching at the start of the subject, as the text matched.\<close>

definition re_match :: "regex \<Rightarrow> string \<Rightarrow> string option" where
  "re_match r s =
     (case ends (length s) r s of
        [] \<Rightarrow> None
      | rest # _ \<Rightarrow> Some (take (length s - length rest) s))"

text \<open>\<open>re.search\<close>: the same at the first position where the pattern matches.\<close>

fun search_from :: "nat \<Rightarrow> regex \<Rightarrow> string \<Rightarrow> string option" where
  "search_from n r [] = (case ends n r [] of [] \<Rightarrow> None | rest # _ \<Rightarrow> Some [])"
| "search_from n r (c # cs) =
     (case ends n r (c # cs) of
        [] \<Rightarrow> search_from n r cs
      | rest # _ \<Rightarrow> Some (take (length (c # cs) - length rest) (c # cs)))"

definition re_search :: "regex \<Rightarrow> string \<Rightarrow> string option" where
  "re_search r s = search_from (length s) r s"

subsection \<open>Port names\<close>

text \<open>\<open>^\d+/\d+(/\d+)?$\<close>\<close>

definition port_regex :: regex where
  "port_regex =
     Seq Bos (Seq (Plus Digit) (Seq (Lit (CHR ''/'')) (Seq (Plus Digit)
       (Seq (Opt (Seq (Lit (CHR ''/'')) (Plus Digit))) Eos))))"

definition validate_port_name :: "string \<Rightarrow> error + unit" where
  "validate_port_name port =
     (if re_match port_regex port = None then Inl BadArgumentError else Inr ())"

subsection \<open>The VLANs of a trunk port\<close>

text \<open>
  \<open>(\d+(-\d+)?)(,\d+(-\d+)?)*\<close>, in which \<open>\d+(-\d+)?\<close> stands twice.
\<close>

definition token_regex :: regex where
  "token_regex = Seq (Plus Digit) (Opt (Seq (Lit (CHR ''-'')) (Plus Digit)))"

definition vlan_regex :: regex where
  "vlan_regex = Seq token_regex (Star (Seq (Lit (CHR '','')) token_regex))"

text \<open>\<open>str.split(sep)\<close>\<close>

fun split_on :: "char \<Rightarrow> string \<Rightarrow> string list" where
  "split_on sep [] = [[]]"
| "split_on sep (c # cs) =
     (if c = sep then [] # split_on sep cs
      else (case split_on sep cs of
              [] \<Rightarrow> [[c]]
            | w # ws \<Rightarrow> (c # w) # ws))"

definition is_int :: "string \<Rightarrow> bool" where
  "is_int s = (s \<noteq> [] \<and> list_all is_digit s)"

definition digit_value :: "char \<Rightarrow> nat" where
  "digit_value c = of_char c - 48"

definition int_of_string :: "string \<Rightarrow> error + nat" where
  "int_of_string s =
     (if is_int s then Inr (foldl (\<lambda>a c. 10 * a + digit_value c) 0 s) else Inl ValueError)"

function string_of_nat :: "nat \<Rightarrow> string" where
  "string_of_nat n =
     (if n < 10 then [''0123456789'' ! n]
      else string_of_nat (n div 10) @ [''0123456789'' ! (n mod 10)])"
  by pat_completeness auto
termination
  by (relation "measure id") auto

declare string_of_nat.simps [simp del]

text \<open>
  Modelled from the spec: the expansion of one token by \<open>parse_vlans\<close> of
  \<open>hil/ext/switches/common.py\<close>, which is not among the sources. The spec (section
  4.2): a bare integer denotes itself, a \<open>lo-hi\<close> token denotes the inclusive integer
  range from \<open>lo\<close> to \<open>hi\<close>; a malformed numeric token is a parse error.
\<close>

definition expand_token :: "string \<Rightarrow> error + nat list" where
  "expand_token tok =
     (if CHR ''-'' \<in> set tok
      then (case (int_of_string (takeWhile (\<lambda>c. c \<noteq> CHR ''-'') tok),
                  int_of_string (tl (dropWhile (\<lambda>c. c \<noteq> CHR ''-'') tok))) of
              (Inr lo, Inr hi) \<Rightarrow> Inr [lo..<Suc hi]
            | _ \<Rightarrow> Inl ValueError)
      else (case int_of_string tok of
              Inr n \<Rightarrow> Inr [n]
            | Inl e \<Rightarrow> Inl e))"

text \<open>
  Modelled from the spec: the results of the tokens of \<open>parse_vlans\<close> in their
  order, or the first parse error.
\<close>

fun collect :: "(error + 'a list) list \<Rightarrow> error + 'a list" where
  "collect [] = Inr []"
| "collect (Inl e # rs) = Inl e"
| "collect (Inr xs # rs) = (case collect rs of Inl e \<Rightarrow> Inl e | Inr ys \<Rightarrow> Inr (xs @ ys))"

text \<open>
  Modelled from the spec: \<open>parse_vlans\<close> of \<open>hil/ext/switches/common.py\<close>, which is not
  among the sources. The spec (section 4.2): expand each comma-separated token.
\<close>

definition parse_vlans :: "string \<Rightarrow> error + nat list" where
  "parse_vlans raw_vlans = collect (map expand_token (split_on (CHR '','') raw_vlans))"

text \<open>
  The decoding step of \<open>_get_vlans\<close>, from the text of the \<open>add\<close> element on:
  \<open>re.search\<close> on a missing text raises TypeError; no match is the empty list; a match
  is expanded and every VLAN \<open>x\<close> is returned as the pair of \<open>vlan/x\<close> and \<open>x\<close>.
\<close>

definition vlans_of_text :: "string option \<Rightarrow> error + (string \<times> nat) list" where
  "vlans_of_text vlans =
     (case vlans of
        None \<Rightarrow> Inl TypeError
      | Some t \<Rightarrow>
          (case re_search vlan_regex t of
             None \<Rightarrow> Inr []
           | Some m \<Rightarrow>
               (case parse_vlans m of
                  Inl e \<Rightarrow> Inl e
                | Inr vlan_list \<Rightarrow> Inr (map (\<lambda>x. (''vlan/'' @ string_of_nat x, x)) vlan_list))))"

definition get_vlans :: "brocade \<Rightarrow> transport \<Rightarrow> string \<Rightarrow> (string \<times> nat) list io" where
  "get_vlans sw tr interface =
     except_AttributeError
       (bind_io (make_request tr GET (construct_url sw interface ''trunk'') None []) (\<lambda>response.
        bind_io (lift_io (fromstring response)) (\<lambda>root.
        bind_io (lift_io (find_elem (Some root) (construct_tag ''allowed''))) (\<lambda>allowed.
        bind_io (lift_io (find_elem allowed (construct_tag ''vlan''))) (\<lambda>vlan.
        bind_io (lift_io (find_elem vlan (construct_tag ''add''))) (\<lambda>add.
        bind_io (lift_io (text_of add)) (\<lambda>vlans.
          lift_io (vlans_of_text vlans))))))))
       []"

subsection \<open>The requests of the driver, by name\<close>

text \<open>The requests an operation adds to the log.\<close>

definition sent :: "'a io \<Rightarrow> request list \<Rightarrow> request list" where
  "sent m log = drop (length log) (snd (m log))"

definition status_query :: "brocade \<Rightarrow> string \<Rightarrow> request" where
  "status_query sw interface =
     \<lparr>req_method = GET, req_url = construct_url sw interface [], req_data = None\<rparr>"

definition shutdown_rq :: "brocade \<Rightarrow> string \<Rightarrow> request" where
  "shutdown_rq sw interface =
     \<lparr>req_method = POST, req_url = construct_url sw interface [],
      req_data = Some ''<shutdown>true</shutdown>''\<rparr>"

definition no_shutdown_rq :: "brocade \<Rightarrow> string \<Rightarrow> request" where
  "no_shutdown_rq sw interface =
     \<lparr>req_method = DELETE, req_url = construct_url sw interface [] @ ''/shutdown'',
      req_data = None\<rparr>"

definition switchport_rq :: "brocade \<Rightarrow> string \<Rightarrow> request" where
  "switchport_rq sw interface =
     \<lparr>req_method = POST, req_url = construct_url sw interface [],
      req_data = Some ''<switchport></switchport>''\<rparr>"

definition mode_rq :: "brocade \<Rightarrow> string \<Rightarrow> string \<Rightarrow> request" where
  "mode_rq sw interface mode =
     \<lparr>req_method = PUT, req_url = construct_url sw interface ''mode'',
      req_data = Some (''<mode><vlan-mode>'' @ mode @ ''</vlan-mode></mode>'')\<rparr>"

definition mode_query :: "brocade \<Rightarrow> string \<Rightarrow> request" where
  "mode_query sw interface =
     \<lparr>req_method = GET, req_url = construct_url sw interface ''mode'', req_data = None\<rparr>"

definition trunk_query :: "brocade \<Rightarrow> string \<Rightarrow> request" where
  "trunk_query sw interface =
     \<lparr>req_method = GET, req_url = construct_url sw interface ''trunk'', req_data = None\<rparr>"

definition add_vlan_rq :: "brocade \<Rightarrow> string \<Rightarrow> string \<Rightarrow> request" where
  "add_vlan_rq sw interface vlan =
     \<lparr>req_method = PUT, req_url = construct_url sw interface ''trunk/allowed/vlan'',
      req_data = Some (''<vlan><add>'' @ vlan @ ''</vlan></vlan>'')\<rparr>"

definition remove_all_rq :: "brocade \<Rightarrow> string \<Rightarrow> request" where
  "remove_all_rq sw interface =
     \<lparr>req_method = PUT, req_url = construct_url sw interface ''trunk/allowed/vlan'',
      req_data = Some ''<vlan><none>true</none></vlan>''\<rparr>"

definition native_tag_rq :: "brocade \<Rightarrow> string \<Rightarrow> request" where
  "native_tag_rq sw interface =
     \<lparr>req_method = DELETE, req_url = construct_url sw interface ''trunk/tag/native-vlan'',
      req_data = None\<rparr>"

definition native_vlan_rq :: "brocade \<Rightarrow> string \<Rightarrow> string \<Rightarrow> request" where
  "native_vlan_rq sw interface vlan =
     \<lparr>req_method = PUT, req_url = construct_url sw interface ''trunk'',
      req_data = Some (''<trunk><native-vlan>'' @ vlan @ ''</native-vlan></trunk>'')\<rparr>"

text \<open>A request fails when its answer's status code is an error outside the acceptable codes.\<close>

definition fails :: "transport \<Rightarrow> request list \<Rightarrow> request \<Rightarrow> nat list \<Rightarrow> bool" where
  "fails tr log rq acceptable =
     (is_error tr (status_code (respond tr log rq))
      \<and> status_code (respond tr log rq) \<notin> set acceptable)"

text \<open>
  The element a path of tags leads to from an element, each step to the first child
  with the tag; \<open>None\<close> when a step of the path is absent.
\<close>

fun descend :: "string list \<Rightarrow> xml \<Rightarrow> xml option" where
  "descend [] e = Some e"
| "descend (t # ts) e =
     (case List.find (\<lambda>c. tag c = construct_tag t) (children e) of
        None \<Rightarrow> None
      | Some c \<Rightarrow> descend ts c)"

subsection \<open>The grammars in the words of the specification\<close>

text \<open>Two or three segments separated by a slash, each a non-negative integer.\<close>

definition port_name_form :: "string \<Rightarrow> bool" where
  "port_name_form p =
     (let segs = split_on (CHR ''/'') p
      in (length segs = 2 \<or> length segs = 3) \<and> list_all is_int segs)"

text \<open>A token is an integer or two integers with a dash between them.\<close>

definition vlan_token :: "string \<Rightarrow> bool" where
  "vlan_token tok =
     (is_int tok
      \<or> (CHR ''-'' \<in> set tok
          \<and> is_int (takeWhile (\<lambda>c. c \<noteq> CHR ''-'') tok)
          \<and> is_int (tl (dropWhile (\<lambda>c. c \<noteq> CHR ''-'') tok))))"

definition vlan_list_form :: "string \<Rightarrow> bool" where
  "vlan_list_form m = list_all vlan_token (split_on (CHR '','') m)"

definition number :: "string \<Rightarrow> nat" where
  "number s = foldl (\<lambda>a c. 10 * a + digit_value c) 0 s"

definition token_vlans :: "string \<Rightarrow> nat set" where
  "token_vlans tok =
     (if CHR ''-'' \<in> set tok
      then {number (takeWhile (\<lambda>c. c \<noteq> CHR ''-'') tok) ..
            number (tl (dropWhile (\<lambda>c. c \<noteq> CHR ''-'') tok))}
      else {number tok})"

subsection \<open>Example devices\<close>

definition example_switch :: brocade where
  "example_switch = \<lparr>hostname = ''http://sw'', interface_type = ''TenGigabitEthernet''\<rparr>"

text \<open>
  A device that answers the k-th request with the k-th response of a script (and with
  an empty 200 once the script is used up); status codes from 400 on are errors.
\<close>

definition scripted :: "response list \<Rightarrow> transport" where
  "scripted rs =
     \<lparr>respond = (\<lambda>log rq. if length log < length rs then rs ! length log
                          else \<lparr>status_code = 200, doc = None\<rparr>),
      is_error = (\<lambda>c. 400 \<le> c)\<rparr>"

definition answer :: "nat \<Rightarrow> xml list \<Rightarrow> response" where
  "answer code elems =
     \<lparr>status_code = code, doc = Some (Element (construct_tag ''interface'') None elems)\<rparr>"

definition field :: "string \<Rightarrow> string option \<Rightarrow> xml list \<Rightarrow> xml" where
  "field name txt elems = Element (construct_tag name) txt elems"

section \<open>Properties\<close>

subsection \<open>Requests and documents\<close>

lemma make_request_result:
  "make_request tr m u d acc log =
     (if fails tr log \<lparr>req_method = m, req_url = u, req_data = d\<rparr> acc
      then Inl SwitchError
      else Inr (respond tr log \<lparr>req_method = m, req_url = u, req_data = d\<rparr>),
      log @ [\<lparr>req_method = m, req_url = u, req_data = d\<rparr>])"
  by (simp add: make_request_def fails_def Let_def)

lemma find_absent:
  "list_all (\<lambda>c. tag c \<noteq> t) cs \<Longrightarrow> List.find (\<lambda>c. tag c = t) cs = None"
  by (induction cs) auto

lemma find_first:
  "list_all (\<lambda>c. tag c \<noteq> t) pre \<Longrightarrow> tag e = t \<Longrightarrow>
   List.find (\<lambda>c. tag c = t) (pre @ e # post) = Some e"
  by (induction pre) auto

lemma scripted_first:
  "respond (scripted (r # rs)) [] rq = r"
  "is_error (scripted rs') c = (400 \<le> c)"
  by (simp_all add: scripted_def)

subsection \<open>The readers\<close>

text \<open>
  C4. When the status request succeeds and its answer is a document: \<open>_is_interface_off\<close>
  returns False when no child of the root is a shutdown element; when there is one, the
  first of them decides: True when its text is \<open>true\<close>, SwitchError for any other text
  (a missing text included).
\<close>

theorem is_interface_off_cases:
  assumes "\<not> fails tr log (status_query sw interface) []"
      and "doc (respond tr log (status_query sw interface)) = Some root"
  shows "(list_all (\<lambda>c. tag c \<noteq> construct_tag ''shutdown'') (children root)
            \<longrightarrow> fst (is_interface_off sw tr interface log) = Inr False)
       \<and> (children root = pre @ e # post
             \<and> list_all (\<lambda>c. tag c \<noteq> construct_tag ''shutdown'') pre
             \<and> tag e = construct_tag ''shutdown''
             \<longrightarrow> fst (is_interface_off sw tr interface log)
                   = (if etext e = Some ''true'' then Inr True else Inl SwitchError))"
  using assms
  by (auto simp add: is_interface_off_def bind_io_def make_request_result status_query_def
      lift_io_def fromstring_def find_absent find_first return_io_def raise_io_def)

theorem is_interface_off_cases_witness:
  "fst (is_interface_off example_switch (scripted [answer 200 []]) ''1/2'' []) = Inr False
   \<and> fst (is_interface_off example_switch
             (scripted [answer 200 [field ''shutdown'' (Some ''true'') []]]) ''1/2'' []) = Inr True
   \<and> fst (is_interface_off example_switch
             (scripted [answer 200 [field ''shutdown'' (Some ''false'') []]]) ''1/2'' [])
       = Inl SwitchError"
proof -
  let ?q = "status_query example_switch ''1/2''"
  have ok: "\<not> fails (scripted [answer 200 es]) [] ?q []" for es
    by (simp add: fails_def scripted_first answer_def)
  have root: "doc (respond (scripted [answer 200 es]) [] ?q)
                = Some (Element (construct_tag ''interface'') None es)" for es
    by (simp add: scripted_first answer_def)
  have "fst (is_interface_off example_switch (scripted [answer 200 []]) ''1/2'' []) = Inr False"
    using is_interface_off_cases [OF ok root, where es1 = "[]"] by simp
  moreover have "fst (is_interface_off example_switch
             (scripted [answer 200 [field ''shutdown'' (Some ''true'') []]]) ''1/2'' []) = Inr True"
    using is_interface_off_cases [OF ok root, where pre = "[]" and post = "[]"
        and e = "field ''shutdown'' (Some ''true'') []"]
    by (simp add: field_def)
  moreover have "fst (is_interface_off example_switch
             (scripted [answer 200 [field ''shutdown'' (Some ''false'') []]]) ''1/2'' [])
       = Inl SwitchError"
    using is_interface_off_cases [OF ok root, where pre = "[]" and post = "[]"
        and e = "field ''shutdown'' (Some ''false'') []"]
    by (simp add: field_def)
  ultimately show ?thesis by simp
qed

text \<open>
  C5. When the trunk request succeeds and its answer is a document: \<open>_get_vlans\<close>
  returns the empty list when the path allowed, vlan, add is absent from the document
  at any step, and \<open>_get_native_vlan\<close> returns None when the native-vlan element is
  absent; neither raises.
\<close>

theorem readers_absent_fields:
  assumes "\<not> fails tr log (trunk_query sw interface) []"
      and "doc (respond tr log (trunk_query sw interface)) = Some root"
  shows "(descend [''allowed'', ''vlan'', ''add''] root = None
            \<longrightarrow> get_vlans sw tr interface log = (Inr [], log @ [trunk_query sw interface]))
       \<and> (descend [''native-vlan''] root = None
            \<longrightarrow> get_native_vlan sw tr interface log
                  = (Inr None, log @ [trunk_query sw interface]))"
  using assms
  by (auto simp add: get_vlans_def get_native_vlan_def except_AttributeError_def bind_io_def
      make_request_result trunk_query_def lift_io_def fromstring_def
      split: option.splits)

theorem readers_absent_fields_witness:
  "get_vlans example_switch
     (scripted [answer 200 [field ''allowed'' None [field ''vlan'' None []]]]) ''1/2'' []
     = (Inr [], [trunk_query example_switch ''1/2''])
   \<and> get_native_vlan example_switch
     (scripted [answer 200 [field ''allowed'' None [field ''vlan'' None []]]]) ''1/2'' []
     = (Inr None, [trunk_query example_switch ''1/2''])"
proof -
  let ?q = "trunk_query example_switch ''1/2''"
  let ?es = "[field ''allowed'' None [field ''vlan'' None []]]"
  have ok: "\<not> fails (scripted [answer 200 ?es]) [] ?q []"
    by (simp add: fails_def scripted_first answer_def)
  have root: "doc (respond (scripted [answer 200 ?es]) [] ?q)
                = Some (Element (construct_tag ''interface'') None ?es)"
    by (simp add: scripted_first answer_def)
  have a: "descend [''allowed'', ''vlan'', ''add'']
             (Element (construct_tag ''interface'') None ?es) = None"
    by (simp add: field_def)
  have b: "descend [''native-vlan''] (Element (construct_tag ''interface'') None ?es) = None"
    by (simp add: field_def construct_tag_def)
  show ?thesis
    using readers_absent_fields [OF ok root] a b by simp
qed

text \<open>
  C10. When the mode request succeeds and its answer is a document with no vlan-mode
  child, \<open>_get_mode\<close> raises AttributeError: nothing catches it, unlike in the readers
  of the trunk VLANs and of the native VLAN.
\<close>

theorem get_mode_missing_field:
  assumes "\<not> fails tr log (mode_query sw interface) []"
      and "doc (respond tr log (mode_query sw interface)) = Some root"
      and "list_all (\<lambda>c. tag c \<noteq> construct_tag ''vlan-mode'') (children root)"
  shows "get_mode sw tr interface log = (Inl AttributeError, log @ [mode_query sw interface])"
  using assms
  by (simp add: get_mode_def bind_io_def make_request_result mode_query_def lift_io_def
      fromstring_def find_absent)

theorem get_mode_missing_field_witness:
  "get_mode example_switch (scripted [answer 200 [field ''shutdown'' (Some ''true'') []]]) ''1/2'' []
     = (Inl AttributeError, [mode_query example_switch ''1/2''])"
proof -
  let ?tr = "scripted [answer 200 [field ''shutdown'' (Some ''true'') []]]"
  have a: "\<not> fails ?tr [] (mode_query example_switch ''1/2'') []"
    by (simp add: fails_def scripted_first answer_def)
  have b: "doc (respond ?tr [] (mode_query example_switch ''1/2''))
             = Some (Element (construct_tag ''interface'') None [field ''shutdown'' (Some ''true'') []])"
    by (simp add: scripted_first answer_def)
  have c: "list_all (\<lambda>c. tag c \<noteq> construct_tag ''vlan-mode'')
             (children (Element (construct_tag ''interface'') None [field ''shutdown'' (Some ''true'') []]))"
    by (simp add: field_def construct_tag_def)
  show ?thesis
    using get_mode_missing_field [OF a b c] by simp
qed

subsection \<open>The mode sequence and the tolerated conflicts\<close>

lemma is_interface_off_log:
  "snd (is_interface_off sw tr interface log) = log @ [status_query sw interface]"
  by (simp add: is_interface_off_def bind_io_def make_request_result status_query_def
      lift_io_def fromstring_def return_io_def raise_io_def
      split: option.splits sum.splits prod.splits)

lemma is_interface_off_pair:
  "is_interface_off sw tr interface log
     = (fst (is_interface_off sw tr interface log), log @ [status_query sw interface])"
  by (metis is_interface_off_log prod.collapse)

lemma enable_and_set_mode_steps:
  "enable_and_set_mode sw tr interface mode log =
     (case fst (is_interface_off sw tr interface log) of
        Inl e \<Rightarrow> (Inl e, log @ [status_query sw interface])
      | Inr off \<Rightarrow>
          (let l1 = log @ [status_query sw interface];
               l2 = l1 @ (if off then [no_shutdown_rq sw interface] else [])
           in if off \<and> fails tr l1 (no_shutdown_rq sw interface) []
              then (Inl SwitchError, l2)
              else if fails tr l2 (switchport_rq sw interface) [409]
              then (Inl SwitchError, l2 @ [switchport_rq sw interface])
              else if mode = ''access'' \<or> mode = ''trunk''
              then (if fails tr (l2 @ [switchport_rq sw interface]) (mode_rq sw interface mode) []
                    then Inl SwitchError else Inr (),
                    l2 @ [switchport_rq sw interface, mode_rq sw interface mode])
              else (Inl AssertionError, l2 @ [switchport_rq sw interface])))"
  apply (subst enable_and_set_mode_def)
  apply (simp only: Let_def)
  apply (subst bind_io_def)
  apply (subst is_interface_off_pair)
  apply (cases "fst (is_interface_off sw tr interface log)")
   apply simp
  apply (simp add: bind_io_def make_request_result return_io_def raise_io_def
      no_shutdown_rq_def switchport_rq_def mode_rq_def)
  done

lemma scripted_respond:
  "respond (scripted rs) log rq =
     (if length log < length rs then rs ! length log else \<lparr>status_code = 200, doc = None\<rparr>)"
  by (simp add: scripted_def)

text \<open>
  C9. A 409 answer to the shutdown request of \<open>_port_shutdown\<close> is not an error: the
  call returns normally. A 409 answer to the switching request of
  \<open>_enable_and_set_mode\<close> is not an error either: when the steps before it succeeded and
  the mode is valid, the call goes on to the mode request and returns normally if that
  one succeeds. So repeating either call on a port already in the target state raises
  nothing.
\<close>

theorem conflict_is_success:
  "(status_code (respond tr log (shutdown_rq sw interface)) = 409
      \<longrightarrow> port_shutdown sw tr interface log = (Inr (), log @ [shutdown_rq sw interface]))
   \<and> (fst (is_interface_off sw tr interface log) = Inr off
       \<and> l2 = log @ status_query sw interface # (if off then [no_shutdown_rq sw interface] else [])
       \<and> \<not> (off \<and> fails tr (log @ [status_query sw interface]) (no_shutdown_rq sw interface) [])
       \<and> status_code (respond tr l2 (switchport_rq sw interface)) = 409
       \<and> (mode = ''access'' \<or> mode = ''trunk'')
       \<and> \<not> fails tr (l2 @ [switchport_rq sw interface]) (mode_rq sw interface mode) []
      \<longrightarrow> enable_and_set_mode sw tr interface mode log
            = (Inr (), l2 @ [switchport_rq sw interface, mode_rq sw interface mode]))"
  by (auto simp add: port_shutdown_def bind_io_def make_request_result return_io_def
      shutdown_rq_def fails_def enable_and_set_mode_steps Let_def)

theorem conflict_is_success_witness:
  "port_shutdown example_switch (scripted [answer 409 []]) ''1/2'' []
     = (Inr (), [shutdown_rq example_switch ''1/2''])
   \<and> enable_and_set_mode example_switch
        (scripted [answer 200 [], answer 409 [], answer 200 []]) ''1/2'' ''trunk'' []
     = (Inr (), [status_query example_switch ''1/2'', switchport_rq example_switch ''1/2'',
                 mode_rq example_switch ''1/2'' ''trunk''])"
proof -
  let ?tr = "scripted [answer 200 [], answer 409 [], answer 200 []]"
  have a: "status_code (respond (scripted [answer 409 []]) [] (shutdown_rq example_switch ''1/2''))
             = 409"
    by (simp add: scripted_respond answer_def)
  have b: "fst (is_interface_off example_switch ?tr ''1/2'' []) = Inr False"
    by (simp add: is_interface_off_def bind_io_def make_request_result fails_def
        scripted_respond scripted_first answer_def lift_io_def fromstring_def return_io_def)
  have c: "status_code (respond ?tr [status_query example_switch ''1/2'']
             (switchport_rq example_switch ''1/2'')) = 409"
    by (simp add: scripted_respond answer_def)
  have d: "\<not> fails ?tr [status_query example_switch ''1/2'', switchport_rq example_switch ''1/2'']
             (mode_rq example_switch ''1/2'' ''trunk'') []"
    by (simp add: fails_def scripted_respond scripted_first answer_def)
  show ?thesis
    using conflict_is_success [of "scripted [answer 409 []]" "[]" example_switch "''1/2''"] a
      conflict_is_success [of ?tr "[]" example_switch "''1/2''" False
        "[status_query example_switch ''1/2'']" "''trunk''"] b c d
    by simp
qed

subsection \<open>The mutators\<close>

text \<open>
  C2. On a device that answers 500, a status that fails the request,
  \<open>_remove_all_vlans_from_trunk\<close> returns normally: it sends its request with
  \<open>requests.put\<close> and never reads the status code. Its sibling
  \<open>_remove_vlan_from_trunk\<close> raises SwitchError on the same device.
\<close>

theorem remove_all_vlans_ignores_status:
  "fails (scripted [answer 500 []]) [] (remove_all_rq example_switch ''1/0/1'') []
   \<and> remove_all_vlans_from_trunk example_switch (scripted [answer 500 []]) ''1/0/1'' []
     = (Inr (), [remove_all_rq example_switch ''1/0/1''])
   \<and> fst (remove_vlan_from_trunk example_switch (scripted [answer 500 []]) ''1/0/1'' ''7'' [])
     = Inl SwitchError"
  by (simp add: remove_all_vlans_from_trunk_def remove_vlan_from_trunk_def bind_io_def
      requests_put_def make_request_result return_io_def fails_def scripted_respond
      scripted_first answer_def remove_all_rq_def)

text \<open>
  An invalid mode is not rejected before the network: on a device that answers 200 to
  everything, the call with mode \<open>bogus\<close> sends the status request and the switching
  request, and then raises AssertionError.
\<close>

theorem invalid_mode_counterexample:
  "fst (enable_and_set_mode example_switch (scripted [answer 200 []]) ''1/2'' ''bogus'' [])
     = Inl AssertionError
   \<and> sent (enable_and_set_mode example_switch (scripted [answer 200 []]) ''1/2'' ''bogus'') []
     = [status_query example_switch ''1/2'', switchport_rq example_switch ''1/2'']"
proof -
  have "fst (is_interface_off example_switch (scripted [answer 200 []]) ''1/2'' []) = Inr False"
    by (simp add: is_interface_off_def bind_io_def make_request_result fails_def
        scripted_respond scripted_first answer_def lift_io_def fromstring_def return_io_def)
  then show ?thesis
    by (simp add: enable_and_set_mode_steps sent_def fails_def scripted_respond scripted_first)
qed

text \<open>
  C1 (amended). For every mode other than \<open>access\<close> and \<open>trunk\<close>,
  \<open>_enable_and_set_mode\<close> never returns normally and never sends a PUT, so the mode is
  never set; but the status request is always sent first, and when the steps before
  the mode check succeed (the status read, the DELETE of the shutdown flag when the
  port is off, the switching request) the call raises AssertionError after them.
\<close>

theorem invalid_mode_after_requests:
  assumes "mode \<noteq> ''access''" and "mode \<noteq> ''trunk''"
  shows "(\<exists>e. fst (enable_and_set_mode sw tr interface mode log) = Inl e)
       \<and> (\<exists>new. snd (enable_and_set_mode sw tr interface mode log)
                    = log @ status_query sw interface # new
                \<and> list_all (\<lambda>rq. req_method rq \<noteq> PUT) new)
       \<and> (fst (is_interface_off sw tr interface log) = Inr off
           \<and> l2 = log @ status_query sw interface
                    # (if off then [no_shutdown_rq sw interface] else [])
           \<and> \<not> (off \<and> fails tr (log @ [status_query sw interface]) (no_shutdown_rq sw interface) [])
           \<and> \<not> fails tr l2 (switchport_rq sw interface) [409]
          \<longrightarrow> enable_and_set_mode sw tr interface mode log
                = (Inl AssertionError, l2 @ [switchport_rq sw interface]))"
  using assms
  by (auto simp add: enable_and_set_mode_steps Let_def no_shutdown_rq_def switchport_rq_def
      split: sum.splits)

theorem invalid_mode_after_requests_witness:
  "enable_and_set_mode example_switch
     (scripted [answer 200 [field ''shutdown'' (Some ''true'') []], answer 200 [], answer 409 []])
     ''1/2'' ''bogus'' []
   = (Inl AssertionError,
      [status_query example_switch ''1/2'', no_shutdown_rq example_switch ''1/2'',
       switchport_rq example_switch ''1/2''])"
proof -
  let ?tr = "scripted [answer 200 [field ''shutdown'' (Some ''true'') []], answer 200 [],
                       answer 409 []]"
  have a: "''bogus'' \<noteq> ''access''" and b: "''bogus'' \<noteq> ''trunk''"
    by simp_all
  have c: "fst (is_interface_off example_switch ?tr ''1/2'' []) = Inr True"
    by (simp add: is_interface_off_def bind_io_def make_request_result fails_def
        scripted_respond scripted_first answer_def lift_io_def fromstring_def return_io_def
        field_def)
  have d: "\<not> fails ?tr [status_query example_switch ''1/2''] (no_shutdown_rq example_switch ''1/2'') []"
    by (simp add: fails_def scripted_respond scripted_first answer_def)
  have e: "\<not> fails ?tr [status_query example_switch ''1/2'', no_shutdown_rq example_switch ''1/2'']
             (switchport_rq example_switch ''1/2'') [409]"
    by (simp add: fails_def scripted_respond scripted_first answer_def)
  show ?thesis
    using invalid_mode_after_requests [OF a b, of example_switch ?tr "''1/2''" "[]" True
        "[status_query example_switch ''1/2'', no_shutdown_rq example_switch ''1/2'']"] c d e
    by simp
qed

subsection \<open>The order of the requests\<close>

lemma add_vlan_rq_distinct:
  "add_vlan_rq sw i v \<noteq> status_query sw i"
  "add_vlan_rq sw i v \<noteq> no_shutdown_rq sw i"
  "add_vlan_rq sw i v \<noteq> switchport_rq sw i"
  "add_vlan_rq sw i v \<noteq> mode_rq sw i m"
  by (simp_all add: add_vlan_rq_def status_query_def no_shutdown_rq_def switchport_rq_def
      mode_rq_def)

lemma native_vlan_rq_distinct:
  "native_vlan_rq sw i v \<noteq> status_query sw i"
  "native_vlan_rq sw i v \<noteq> no_shutdown_rq sw i"
  "native_vlan_rq sw i v \<noteq> switchport_rq sw i"
  "native_vlan_rq sw i v \<noteq> mode_rq sw i m"
  "native_vlan_rq sw i v \<noteq> native_tag_rq sw i"
  by (simp_all add: native_vlan_rq_def status_query_def no_shutdown_rq_def switchport_rq_def
      mode_rq_def native_tag_rq_def)

text \<open>The log of a run of the mode sequence: what a successful run sent, and what any run can send.\<close>

lemma enable_and_set_mode_success:
  assumes "fst (enable_and_set_mode sw tr i mode log) = Inr ()"
  shows "\<exists>mid. (mid = [] \<or> mid = [no_shutdown_rq sw i])
           \<and> snd (enable_and_set_mode sw tr i mode log)
               = log @ status_query sw i # mid @ [switchport_rq sw i, mode_rq sw i mode]"
  using assms
  by (auto simp add: enable_and_set_mode_steps Let_def split: sum.splits if_splits)

lemma enable_and_set_mode_sent:
  "\<exists>new. snd (enable_and_set_mode sw tr i mode log) = log @ new
         \<and> set new \<subseteq> {status_query sw i, no_shutdown_rq sw i, switchport_rq sw i,
                         mode_rq sw i mode}"
  by (auto simp add: enable_and_set_mode_steps Let_def split: sum.splits if_splits)

lemma add_vlan_to_trunk_steps:
  "add_vlan_to_trunk sw tr i vlan log =
     (case fst (enable_and_set_mode sw tr i ''trunk'' log) of
        Inl e \<Rightarrow> (Inl e, snd (enable_and_set_mode sw tr i ''trunk'' log))
      | Inr _ \<Rightarrow>
          (if fails tr (snd (enable_and_set_mode sw tr i ''trunk'' log)) (add_vlan_rq sw i vlan) []
           then Inl SwitchError else Inr (),
           snd (enable_and_set_mode sw tr i ''trunk'' log) @ [add_vlan_rq sw i vlan]))"
  by (cases "enable_and_set_mode sw tr i ''trunk'' log")
     (simp add: add_vlan_to_trunk_def bind_io_def make_request_result return_io_def
      add_vlan_rq_def split: sum.splits)

text \<open>
  C7. Whenever \<open>_add_vlan_to_trunk\<close> sends the request that adds the VLAN, that
  request is the last one it sent, and before it the whole trunk-mode sequence ran and
  succeeded: the status request, the DELETE of the shutdown flag if the port was off,
  the switching request and the mode request, in this order. Conversely, once the
  trunk-mode sequence has succeeded the add request is sent right after it.
\<close>

theorem add_vlan_after_trunk_mode:
  "(add_vlan_rq sw i vlan \<in> set (sent (add_vlan_to_trunk sw tr i vlan) log)
      \<longrightarrow> (\<exists>mid. (mid = [] \<or> mid = [no_shutdown_rq sw i])
             \<and> enable_and_set_mode sw tr i ''trunk'' log
                 = (Inr (), log @ status_query sw i # mid
                             @ [switchport_rq sw i, mode_rq sw i ''trunk''])
             \<and> sent (add_vlan_to_trunk sw tr i vlan) log
                 = status_query sw i # mid
                     @ [switchport_rq sw i, mode_rq sw i ''trunk'', add_vlan_rq sw i vlan]))
   \<and> (fst (enable_and_set_mode sw tr i ''trunk'' log) = Inr ()
      \<longrightarrow> snd (add_vlan_to_trunk sw tr i vlan log)
            = snd (enable_and_set_mode sw tr i ''trunk'' log) @ [add_vlan_rq sw i vlan])"
proof (intro conjI impI)
  assume ok: "fst (enable_and_set_mode sw tr i ''trunk'' log) = Inr ()"
  then show "snd (add_vlan_to_trunk sw tr i vlan log)
            = snd (enable_and_set_mode sw tr i ''trunk'' log) @ [add_vlan_rq sw i vlan]"
    by (simp add: add_vlan_to_trunk_steps)
next
  assume mem: "add_vlan_rq sw i vlan \<in> set (sent (add_vlan_to_trunk sw tr i vlan) log)"
  obtain new where new: "snd (enable_and_set_mode sw tr i ''trunk'' log) = log @ new"
    and sub: "set new \<subseteq> {status_query sw i, no_shutdown_rq sw i, switchport_rq sw i,
                         mode_rq sw i ''trunk''}"
    using enable_and_set_mode_sent by blast
  have notin: "add_vlan_rq sw i vlan \<notin> set new"
    using sub add_vlan_rq_distinct by blast
  have ok: "fst (enable_and_set_mode sw tr i ''trunk'' log) = Inr ()"
  proof (cases "fst (enable_and_set_mode sw tr i ''trunk'' log)")
    case (Inl e)
    then have "sent (add_vlan_to_trunk sw tr i vlan) log = new"
      by (simp add: add_vlan_to_trunk_steps sent_def new)
    with mem notin show ?thesis by simp
  next
    case (Inr u)
    then show ?thesis by simp
  qed
  from enable_and_set_mode_success [OF ok] obtain mid
    where mid: "mid = [] \<or> mid = [no_shutdown_rq sw i]"
      and l: "snd (enable_and_set_mode sw tr i ''trunk'' log)
               = log @ status_query sw i # mid @ [switchport_rq sw i, mode_rq sw i ''trunk'']"
    by blast
  have e: "enable_and_set_mode sw tr i ''trunk'' log
             = (Inr (), log @ status_query sw i # mid
                         @ [switchport_rq sw i, mode_rq sw i ''trunk''])"
    using ok l by (metis prod.collapse)
  have "sent (add_vlan_to_trunk sw tr i vlan) log
          = status_query sw i # mid
              @ [switchport_rq sw i, mode_rq sw i ''trunk'', add_vlan_rq sw i vlan]"
    using ok l by (simp add: add_vlan_to_trunk_steps sent_def)
  with mid e
  show "\<exists>mid. (mid = [] \<or> mid = [no_shutdown_rq sw i])
             \<and> enable_and_set_mode sw tr i ''trunk'' log
                 = (Inr (), log @ status_query sw i # mid
                             @ [switchport_rq sw i, mode_rq sw i ''trunk''])
             \<and> sent (add_vlan_to_trunk sw tr i vlan) log
                 = status_query sw i # mid
                     @ [switchport_rq sw i, mode_rq sw i ''trunk'', add_vlan_rq sw i vlan]"
    by blast
qed

theorem add_vlan_after_trunk_mode_witness:
  "sent (add_vlan_to_trunk example_switch
           (scripted [answer 200 [], answer 200 [], answer 200 [], answer 200 []]) ''1/2'' ''7'') []
     = [status_query example_switch ''1/2'', switchport_rq example_switch ''1/2'',
        mode_rq example_switch ''1/2'' ''trunk'', add_vlan_rq example_switch ''1/2'' ''7'']"
proof -
  let ?tr = "scripted [answer 200 [], answer 200 [], answer 200 [], answer 200 []]"
  have off: "fst (is_interface_off example_switch ?tr ''1/2'' []) = Inr False"
    by (simp add: is_interface_off_def bind_io_def make_request_result fails_def
        scripted_respond scripted_first answer_def lift_io_def fromstring_def return_io_def)
  have e: "enable_and_set_mode example_switch ?tr ''1/2'' ''trunk'' []
             = (Inr (), [status_query example_switch ''1/2'', switchport_rq example_switch ''1/2'',
                         mode_rq example_switch ''1/2'' ''trunk''])"
    using off
    by (simp add: enable_and_set_mode_steps fails_def scripted_respond scripted_first answer_def)
  have ok: "fst (enable_and_set_mode example_switch ?tr ''1/2'' ''trunk'' []) = Inr ()"
    by (simp only: e fst_conv)
  have s: "snd (add_vlan_to_trunk example_switch ?tr ''1/2'' ''7'' [])
             = snd (enable_and_set_mode example_switch ?tr ''1/2'' ''trunk'' [])
                 @ [add_vlan_rq example_switch ''1/2'' ''7'']"
    using add_vlan_after_trunk_mode [of example_switch "''1/2''" "''7''" ?tr "[]"] ok
    by blast
  show ?thesis
    unfolding sent_def s e by simp
qed

lemma set_native_vlan_steps:
  "set_native_vlan sw tr i vlan log =
     (case fst (enable_and_set_mode sw tr i ''trunk'' log) of
        Inl e \<Rightarrow> (Inl e, snd (enable_and_set_mode sw tr i ''trunk'' log))
      | Inr _ \<Rightarrow>
          (let l1 = snd (enable_and_set_mode sw tr i ''trunk'' log)
           in if fails tr l1 (native_tag_rq sw i) [404]
              then (Inl SwitchError, l1 @ [native_tag_rq sw i])
              else (if fails tr (l1 @ [native_tag_rq sw i]) (native_vlan_rq sw i vlan) []
                    then Inl SwitchError else Inr (),
                    l1 @ [native_tag_rq sw i, native_vlan_rq sw i vlan])))"
  by (cases "enable_and_set_mode sw tr i ''trunk'' log")
     (simp add: set_native_vlan_def disable_native_tag_def bind_io_def make_request_result
      return_io_def native_tag_rq_def native_vlan_rq_def Let_def split: sum.splits)

text \<open>
  C8. Whenever \<open>_set_native_vlan\<close> sends the request that sets the native VLAN, the
  requests it sent are, in this order: the trunk-mode sequence (which succeeded), the
  DELETE that disables tagging of the native VLAN, and the native-VLAN request last.
  Conversely, once the trunk-mode sequence has succeeded and the tag-disable request
  does not fail (its answer is no error, or it is 404), the tag-disable and then the
  native-VLAN request are sent; in particular an answer 404 to the tag-disable request
  does not stop the sequence.
\<close>

theorem native_vlan_after_trunk_mode:
  "(native_vlan_rq sw i vlan \<in> set (sent (set_native_vlan sw tr i vlan) log)
      \<longrightarrow> (\<exists>mid. (mid = [] \<or> mid = [no_shutdown_rq sw i])
             \<and> enable_and_set_mode sw tr i ''trunk'' log
                 = (Inr (), log @ status_query sw i # mid
                             @ [switchport_rq sw i, mode_rq sw i ''trunk''])
             \<and> sent (set_native_vlan sw tr i vlan) log
                 = status_query sw i # mid
                     @ [switchport_rq sw i, mode_rq sw i ''trunk'', native_tag_rq sw i,
                        native_vlan_rq sw i vlan]))
   \<and> (fst (enable_and_set_mode sw tr i ''trunk'' log) = Inr ()
       \<and> \<not> fails tr (snd (enable_and_set_mode sw tr i ''trunk'' log))
               (native_tag_rq sw i) [404]
      \<longrightarrow> snd (set_native_vlan sw tr i vlan log)
            = snd (enable_and_set_mode sw tr i ''trunk'' log)
                @ [native_tag_rq sw i, native_vlan_rq sw i vlan])
   \<and> (fst (enable_and_set_mode sw tr i ''trunk'' log) = Inr ()
       \<and> status_code (respond tr (snd (enable_and_set_mode sw tr i ''trunk'' log))
                         (native_tag_rq sw i)) = 404
      \<longrightarrow> snd (set_native_vlan sw tr i vlan log)
            = snd (enable_and_set_mode sw tr i ''trunk'' log)
                @ [native_tag_rq sw i, native_vlan_rq sw i vlan])"
proof (intro conjI impI)
  assume "fst (enable_and_set_mode sw tr i ''trunk'' log) = Inr ()
       \<and> \<not> fails tr (snd (enable_and_set_mode sw tr i ''trunk'' log))
               (native_tag_rq sw i) [404]"
  then show "snd (set_native_vlan sw tr i vlan log)
            = snd (enable_and_set_mode sw tr i ''trunk'' log)
                @ [native_tag_rq sw i, native_vlan_rq sw i vlan]"
    by (simp add: set_native_vlan_steps Let_def)
next
  assume "fst (enable_and_set_mode sw tr i ''trunk'' log) = Inr ()
       \<and> status_code (respond tr (snd (enable_and_set_mode sw tr i ''trunk'' log))
                         (native_tag_rq sw i)) = 404"
  then show "snd (set_native_vlan sw tr i vlan log)
            = snd (enable_and_set_mode sw tr i ''trunk'' log)
                @ [native_tag_rq sw i, native_vlan_rq sw i vlan]"
    by (simp add: set_native_vlan_steps fails_def Let_def)
next
  assume mem: "native_vlan_rq sw i vlan \<in> set (sent (set_native_vlan sw tr i vlan) log)"
  obtain new where new: "snd (enable_and_set_mode sw tr i ''trunk'' log) = log @ new"
    and sub: "set new \<subseteq> {status_query sw i, no_shutdown_rq sw i, switchport_rq sw i,
                         mode_rq sw i ''trunk''}"
    using enable_and_set_mode_sent by blast
  have notin: "native_vlan_rq sw i vlan \<notin> set new"
    using sub native_vlan_rq_distinct by blast
  have ok: "fst (enable_and_set_mode sw tr i ''trunk'' log) = Inr ()"
  proof (cases "fst (enable_and_set_mode sw tr i ''trunk'' log)")
    case (Inl e)
    then have "sent (set_native_vlan sw tr i vlan) log = new"
      by (simp add: set_native_vlan_steps sent_def new)
    with mem notin show ?thesis by simp
  next
    case (Inr u)
    then show ?thesis by simp
  qed
  have tag_ok: "\<not> fails tr (log @ new) (native_tag_rq sw i) [404]"
  proof
    assume "fails tr (log @ new) (native_tag_rq sw i) [404]"
    then have "sent (set_native_vlan sw tr i vlan) log = new @ [native_tag_rq sw i]"
      using ok by (simp add: set_native_vlan_steps sent_def new Let_def)
    with mem notin native_vlan_rq_distinct(5) [of sw i vlan] show False by simp
  qed
  from enable_and_set_mode_success [OF ok] obtain mid
    where mid: "mid = [] \<or> mid = [no_shutdown_rq sw i]"
      and l: "snd (enable_and_set_mode sw tr i ''trunk'' log)
               = log @ status_query sw i # mid @ [switchport_rq sw i, mode_rq sw i ''trunk'']"
    by blast
  have e: "enable_and_set_mode sw tr i ''trunk'' log
             = (Inr (), log @ status_query sw i # mid
                         @ [switchport_rq sw i, mode_rq sw i ''trunk''])"
    using ok l by (metis prod.collapse)
  have "sent (set_native_vlan sw tr i vlan) log
          = status_query sw i # mid
              @ [switchport_rq sw i, mode_rq sw i ''trunk'', native_tag_rq sw i,
                 native_vlan_rq sw i vlan]"
    using ok l tag_ok new by (simp add: set_native_vlan_steps sent_def Let_def)
  with mid e
  show "\<exists>mid. (mid = [] \<or> mid = [no_shutdown_rq sw i])
             \<and> enable_and_set_mode sw tr i ''trunk'' log
                 = (Inr (), log @ status_query sw i # mid
                             @ [switchport_rq sw i, mode_rq sw i ''trunk''])
             \<and> sent (set_native_vlan sw tr i vlan) log
                 = status_query sw i # mid
                     @ [switchport_rq sw i, mode_rq sw i ''trunk'', native_tag_rq sw i,
                        native_vlan_rq sw i vlan]"
    by blast
qed

theorem native_vlan_after_trunk_mode_witness:
  "sent (set_native_vlan example_switch
           (scripted [answer 200 [], answer 200 [], answer 200 [], answer 200 [], answer 200 []])
           ''1/2'' ''50'') []
     = [status_query example_switch ''1/2'', switchport_rq example_switch ''1/2'',
        mode_rq example_switch ''1/2'' ''trunk'', native_tag_rq example_switch ''1/2'',
        native_vlan_rq example_switch ''1/2'' ''50'']
   \<and> sent (set_native_vlan example_switch
           (scripted [answer 200 [], answer 409 [], answer 200 [], answer 404 [], answer 200 []])
           ''1/2'' ''50'') []
     = [status_query example_switch ''1/2'', switchport_rq example_switch ''1/2'',
        mode_rq example_switch ''1/2'' ''trunk'', native_tag_rq example_switch ''1/2'',
        native_vlan_rq example_switch ''1/2'' ''50'']"
proof (rule conjI)
  let ?tr = "scripted [answer 200 [], answer 200 [], answer 200 [], answer 200 [], answer 200 []]"
  have off: "fst (is_interface_off example_switch ?tr ''1/2'' []) = Inr False"
    by (simp add: is_interface_off_def bind_io_def make_request_result fails_def
        scripted_respond scripted_first answer_def lift_io_def fromstring_def return_io_def)
  have e: "enable_and_set_mode example_switch ?tr ''1/2'' ''trunk'' []
             = (Inr (), [status_query example_switch ''1/2'', switchport_rq example_switch ''1/2'',
                         mode_rq example_switch ''1/2'' ''trunk''])"
    using off
    by (simp add: enable_and_set_mode_steps fails_def scripted_respond scripted_first answer_def)
  have ok: "fst (enable_and_set_mode example_switch ?tr ''1/2'' ''trunk'' []) = Inr ()"
    by (simp only: e fst_conv)
  have t: "\<not> fails ?tr (snd (enable_and_set_mode example_switch ?tr ''1/2'' ''trunk'' []))
             (native_tag_rq example_switch ''1/2'') [404]"
    unfolding e by (simp add: fails_def scripted_respond scripted_first answer_def)
  have s: "snd (set_native_vlan example_switch ?tr ''1/2'' ''50'' [])
             = snd (enable_and_set_mode example_switch ?tr ''1/2'' ''trunk'' [])
                 @ [native_tag_rq example_switch ''1/2'', native_vlan_rq example_switch ''1/2'' ''50'']"
    using native_vlan_after_trunk_mode [of example_switch "''1/2''" "''50''" ?tr "[]"] ok t
    by blast
  show "sent (set_native_vlan example_switch ?tr ''1/2'' ''50'') []
     = [status_query example_switch ''1/2'', switchport_rq example_switch ''1/2'',
        mode_rq example_switch ''1/2'' ''trunk'', native_tag_rq example_switch ''1/2'',
        native_vlan_rq example_switch ''1/2'' ''50'']"
    unfolding sent_def s e by simp
next
  let ?tr = "scripted [answer 200 [], answer 409 [], answer 200 [], answer 404 [], answer 200 []]"
  have off: "fst (is_interface_off example_switch ?tr ''1/2'' []) = Inr False"
    by (simp add: is_interface_off_def bind_io_def make_request_result fails_def
        scripted_respond scripted_first answer_def lift_io_def fromstring_def return_io_def)
  have e: "enable_and_set_mode example_switch ?tr ''1/2'' ''trunk'' []
             = (Inr (), [status_query example_switch ''1/2'', switchport_rq example_switch ''1/2'',
                         mode_rq example_switch ''1/2'' ''trunk''])"
    using off
    by (simp add: enable_and_set_mode_steps fails_def scripted_respond scripted_first answer_def)
  have ok: "fst (enable_and_set_mode example_switch ?tr ''1/2'' ''trunk'' []) = Inr ()"
    by (simp only: e fst_conv)
  have t: "status_code (respond ?tr (snd (enable_and_set_mode example_switch ?tr ''1/2'' ''trunk'' []))
             (native_tag_rq example_switch ''1/2'')) = 404"
    unfolding e by (simp add: scripted_respond answer_def)
  have s: "snd (set_native_vlan example_switch ?tr ''1/2'' ''50'' [])
             = snd (enable_and_set_mode example_switch ?tr ''1/2'' ''trunk'' [])
                 @ [native_tag_rq example_switch ''1/2'', native_vlan_rq example_switch ''1/2'' ''50'']"
    using native_vlan_after_trunk_mode [of example_switch "''1/2''" "''50''" ?tr "[]"] ok t
    by blast
  show "sent (set_native_vlan example_switch ?tr ''1/2'' ''50'') []
     = [status_query example_switch ''1/2'', switchport_rq example_switch ''1/2'',
        mode_rq example_switch ''1/2'' ''trunk'', native_tag_rq example_switch ''1/2'',
        native_vlan_rq example_switch ''1/2'' ''50'']"
    unfolding sent_def s e by simp
qed

subsection \<open>The matcher on runs of digits\<close>

lemma ends_star_digit_Nil: "ends n (Star Digit) [] = [[]]"
  by (simp add: ends.simps(7))

lemma ends_star_digit_Cons:
  "ends n (Star Digit) (c # cs) =
     (if is_digit c then ends n (Star Digit) cs @ [c # cs] else [c # cs])"
  by (subst ends.simps(7)) simp

lemma set_ends_star_digit:
  "set (ends n (Star Digit) s) = {t. \<exists>d. list_all is_digit d \<and> s = d @ t}"
proof (induction s)
  case Nil
  show ?case by (auto simp add: ends_star_digit_Nil)
next
  case (Cons c cs)
  show ?case
  proof (cases "is_digit c")
    case True
    have "set (ends n (Star Digit) (c # cs)) = insert (c # cs) (set (ends n (Star Digit) cs))"
      using True by (simp add: ends_star_digit_Cons)
    also have "\<dots> = {t. \<exists>d. list_all is_digit d \<and> c # cs = d @ t}"
    proof (intro set_eqI iffI)
      fix t assume "t \<in> insert (c # cs) (set (ends n (Star Digit) cs))"
      then consider "t = c # cs" | d where "list_all is_digit d" "cs = d @ t"
        using Cons.IH by auto
      then show "t \<in> {t. \<exists>d. list_all is_digit d \<and> c # cs = d @ t}"
      proof cases
        case 1
        then have "list_all is_digit [] \<and> c # cs = [] @ t" by simp
        then show ?thesis by blast
      next
        case 2
        then have "list_all is_digit (c # d) \<and> c # cs = (c # d) @ t"
          using True by simp
        then show ?thesis by blast
      qed
    next
      fix t assume "t \<in> {t. \<exists>d. list_all is_digit d \<and> c # cs = d @ t}"
      then obtain d where d: "list_all is_digit d" "c # cs = d @ t" by blast
      show "t \<in> insert (c # cs) (set (ends n (Star Digit) cs))"
      proof (cases d)
        case Nil
        with d show ?thesis by simp
      next
        case (Cons x d')
        with d have "list_all is_digit d'" "cs = d' @ t" by simp_all
        then show ?thesis using Cons.IH by auto
      qed
    qed
    finally show ?thesis .
  next
    case False
    have "set (ends n (Star Digit) (c # cs)) = {c # cs}"
      using False by (simp add: ends_star_digit_Cons)
    also have "\<dots> = {t. \<exists>d. list_all is_digit d \<and> c # cs = d @ t}"
      using False by (auto simp add: Cons_eq_append_conv)
    finally show ?thesis .
  qed
qed

lemma set_ends_plus_digit:
  "set (ends n (Plus Digit) s) = {t. \<exists>d. is_int d \<and> s = d @ t}"
proof (cases s)
  case Nil
  then show ?thesis by (auto simp add: Plus_def is_int_def)
next
  case (Cons c cs)
  show ?thesis
  proof (cases "is_digit c")
    case True
    have "set (ends n (Plus Digit) s) = {t. \<exists>d. list_all is_digit d \<and> cs = d @ t}"
      using True Cons by (simp add: Plus_def set_ends_star_digit)
    also have "\<dots> = {t. \<exists>d. is_int d \<and> s = d @ t}"
    proof (intro set_eqI iffI)
      fix t assume "t \<in> {t. \<exists>d. list_all is_digit d \<and> cs = d @ t}"
      then obtain d where "list_all is_digit d" "cs = d @ t" by blast
      then have "is_int (c # d) \<and> s = (c # d) @ t"
        using True Cons by (simp add: is_int_def)
      then show "t \<in> {t. \<exists>d. is_int d \<and> s = d @ t}" by blast
    next
      fix t assume "t \<in> {t. \<exists>d. is_int d \<and> s = d @ t}"
      then obtain d where d: "is_int d" "s = d @ t" by blast
      then obtain x d' where "d = x # d'" by (cases d) (auto simp add: is_int_def)
      with d Cons have "list_all is_digit d' \<and> cs = d' @ t"
        by (simp add: is_int_def)
      then show "t \<in> {t. \<exists>d. list_all is_digit d \<and> cs = d @ t}" by blast
    qed
    finally show ?thesis .
  next
    case False
    then show ?thesis
      using Cons by (auto simp add: Plus_def is_int_def Cons_eq_append_conv)
  qed
qed

subsection \<open>Splitting at a separator\<close>

lemma split_on_nonempty: "split_on sep s \<noteq> []"
  by (induction s) (auto split: list.splits)

lemma split_on_no_sep: "sep \<notin> set a \<Longrightarrow> split_on sep a = [a]"
  by (induction a) auto

lemma split_on_append:
  "sep \<notin> set a \<Longrightarrow> split_on sep (a @ sep # b) = a # split_on sep b"
  by (induction a) auto

lemma split_on_join:
  "split_on sep s = w # ws \<Longrightarrow> s = w @ concat (map (\<lambda>x. sep # x) ws)"
proof (induction s arbitrary: w ws)
  case Nil
  then show ?case by simp
next
  case (Cons c cs)
  show ?case
  proof (cases "c = sep")
    case True
    with Cons.prems have "w = []" "split_on sep cs = ws" by simp_all
    moreover obtain v vs where "split_on sep cs = v # vs"
      using split_on_nonempty [of sep cs] by (cases "split_on sep cs") auto
    ultimately show ?thesis
      using Cons.IH [of v vs] True by auto
  next
    case False
    obtain v vs where v: "split_on sep cs = v # vs"
      using split_on_nonempty [of sep cs] by (cases "split_on sep cs") auto
    with Cons.prems False have "w = c # v" "ws = vs" by simp_all
    then show ?thesis using Cons.IH [OF v] by simp
  qed
qed

lemma split_on_segments: "split_on sep s = ws \<Longrightarrow> w \<in> set ws \<Longrightarrow> sep \<notin> set w"
proof (induction s arbitrary: w ws)
  case Nil
  then show ?case by auto
next
  case (Cons c cs)
  obtain v vs where v: "split_on sep cs = v # vs"
    using split_on_nonempty [of sep cs] by (cases "split_on sep cs") auto
  show ?case
  proof (cases "c = sep")
    case True
    with Cons.prems v have "w = [] \<or> w \<in> set (v # vs)" by auto
    then show ?thesis using Cons.IH [OF v] by auto
  next
    case False
    with Cons.prems v have "w = c # v \<or> w \<in> set vs" by auto
    then show ?thesis using Cons.IH [OF v] False by auto
  qed
qed

lemma is_digit_chars:
  "is_digit c \<Longrightarrow> c \<noteq> CHR ''/'' \<and> c \<noteq> CHR ''-'' \<and> c \<noteq> CHR '','' \<and> c \<noteq> CHR 0x0A"
  by (auto simp add: is_digit_def)

lemma is_int_chars:
  "is_int a \<Longrightarrow> CHR ''/'' \<notin> set a \<and> CHR ''-'' \<notin> set a \<and> CHR '','' \<notin> set a
     \<and> CHR 0x0A \<notin> set a"
  using is_digit_chars by (auto simp add: is_int_def list_all_iff)

lemma port_name_form_iff:
  "port_name_form p \<longleftrightarrow>
     (\<exists>a b. is_int a \<and> is_int b \<and> p = a @ CHR ''/'' # b)
     \<or> (\<exists>a b c. is_int a \<and> is_int b \<and> is_int c \<and> p = a @ CHR ''/'' # b @ CHR ''/'' # c)"
proof
  assume "port_name_form p"
  then have len: "length (split_on (CHR ''/'') p) = 2 \<or> length (split_on (CHR ''/'') p) = 3"
    and all: "list_all is_int (split_on (CHR ''/'') p)"
    by (simp_all add: port_name_form_def Let_def)
  from len show "(\<exists>a b. is_int a \<and> is_int b \<and> p = a @ CHR ''/'' # b)
     \<or> (\<exists>a b c. is_int a \<and> is_int b \<and> is_int c \<and> p = a @ CHR ''/'' # b @ CHR ''/'' # c)"
  proof
    assume "length (split_on (CHR ''/'') p) = 2"
    then obtain a b where ab: "split_on (CHR ''/'') p = [a, b]"
      by (cases "split_on (CHR ''/'') p"; cases "tl (split_on (CHR ''/'') p)") auto
    from split_on_join [OF ab] all ab have "is_int a \<and> is_int b \<and> p = a @ CHR ''/'' # b"
      by simp
    then show ?thesis by blast
  next
    assume "length (split_on (CHR ''/'') p) = 3"
    then obtain a b c where abc: "split_on (CHR ''/'') p = [a, b, c]"
      by (cases "split_on (CHR ''/'') p"; cases "tl (split_on (CHR ''/'') p)";
          cases "tl (tl (split_on (CHR ''/'') p))") auto
    from split_on_join [OF abc] all abc
    have "is_int a \<and> is_int b \<and> is_int c \<and> p = a @ CHR ''/'' # b @ CHR ''/'' # c"
      by simp
    then show ?thesis by blast
  qed
next
  assume "(\<exists>a b. is_int a \<and> is_int b \<and> p = a @ CHR ''/'' # b)
     \<or> (\<exists>a b c. is_int a \<and> is_int b \<and> is_int c \<and> p = a @ CHR ''/'' # b @ CHR ''/'' # c)"
  then show "port_name_form p"
  proof (elim disjE exE conjE)
    fix a b assume "is_int a" "is_int b" "p = a @ CHR ''/'' # b"
    then show ?thesis
      using is_int_chars [of a] is_int_chars [of b]
      by (simp add: port_name_form_def split_on_append split_on_no_sep)
  next
    fix a b c assume "is_int a" "is_int b" "is_int c" "p = a @ CHR ''/'' # b @ CHR ''/'' # c"
    then show ?thesis
      using is_int_chars [of a] is_int_chars [of b] is_int_chars [of c]
      by (simp add: port_name_form_def split_on_append split_on_no_sep)
  qed
qed

subsection \<open>Port names\<close>

lemma mem_ends_Seq:
  "t \<in> set (ends n (Seq r1 r2) s) \<longleftrightarrow> (\<exists>u \<in> set (ends n r1 s). t \<in> set (ends n r2 u))"
  by auto

lemma mem_ends_Opt:
  "t \<in> set (ends n (Opt r) s) \<longleftrightarrow> t \<in> set (ends n r s) \<or> t = s"
  by auto

lemma mem_ends_Lit: "t \<in> set (ends n (Lit a) s) \<longleftrightarrow> s = a # t"
  by (cases s) auto

lemma mem_ends_Eos: "t \<in> set (ends n Eos s) \<longleftrightarrow> t = s \<and> (s = [] \<or> s = [CHR 0x0A])"
  by auto

lemma mem_ends_Bos: "t \<in> set (ends n Bos s) \<longleftrightarrow> t = s \<and> length s = n"
  by auto

lemma mem_ends_plus_digit:
  "t \<in> set (ends n (Plus Digit) s) \<longleftrightarrow> (\<exists>d. is_int d \<and> s = d @ t)"
  by (simp add: set_ends_plus_digit)

lemma mem_ends_port_tail:
  "t \<in> set (ends n (Seq (Opt (Seq (Lit (CHR ''/'')) (Plus Digit))) Eos) u) \<longleftrightarrow>
     (t = [] \<or> t = [CHR 0x0A]) \<and> (u = t \<or> (\<exists>c. is_int c \<and> u = CHR ''/'' # c @ t))"
  by (simp only: mem_ends_Seq Bex_def mem_ends_Opt mem_ends_Lit mem_ends_Eos
      mem_ends_plus_digit) auto

lemma mem_ends_port_regex:
  "t \<in> set (ends (length p) port_regex p) \<longleftrightarrow>
     (t = [] \<or> t = [CHR 0x0A])
     \<and> (\<exists>a b. is_int a \<and> is_int b
            \<and> (p = a @ CHR ''/'' # b @ t
                \<or> (\<exists>c. is_int c \<and> p = a @ CHR ''/'' # b @ CHR ''/'' # c @ t)))"
    (is "?L \<longleftrightarrow> ?R")
proof
  assume ?L
  then obtain u1 where u1: "u1 \<in> set (ends (length p) Bos p)"
    and r1: "t \<in> set (ends (length p) (Seq (Plus Digit) (Seq (Lit (CHR ''/'')) (Seq (Plus Digit)
               (Seq (Opt (Seq (Lit (CHR ''/'')) (Plus Digit))) Eos)))) u1)"
    unfolding port_regex_def mem_ends_Seq [of t _ Bos] by blast
  from u1 have "u1 = p" by (simp add: mem_ends_Bos)
  from r1 obtain u2 where u2: "u2 \<in> set (ends (length p) (Plus Digit) u1)"
    and r2: "t \<in> set (ends (length p) (Seq (Lit (CHR ''/'')) (Seq (Plus Digit)
               (Seq (Opt (Seq (Lit (CHR ''/'')) (Plus Digit))) Eos))) u2)"
    unfolding mem_ends_Seq [of t _ "Plus Digit"] by blast
  from u2 obtain a where a: "is_int a" "u1 = a @ u2" by (auto simp add: mem_ends_plus_digit)
  from r2 obtain u3 where u3: "u3 \<in> set (ends (length p) (Lit (CHR ''/'')) u2)"
    and r3: "t \<in> set (ends (length p) (Seq (Plus Digit)
               (Seq (Opt (Seq (Lit (CHR ''/'')) (Plus Digit))) Eos)) u3)"
    unfolding mem_ends_Seq [of t _ "Lit (CHR ''/'')"] by blast
  from u3 have "u2 = CHR ''/'' # u3" by (simp only: mem_ends_Lit)
  from r3 obtain u4 where u4: "u4 \<in> set (ends (length p) (Plus Digit) u3)"
    and r4: "t \<in> set (ends (length p) (Seq (Opt (Seq (Lit (CHR ''/'')) (Plus Digit))) Eos) u4)"
    unfolding mem_ends_Seq [of t _ "Plus Digit"] by blast
  from u4 obtain b where b: "is_int b" "u3 = b @ u4" by (auto simp add: mem_ends_plus_digit)
  from r4 have t: "t = [] \<or> t = [CHR 0x0A]"
    and tail: "u4 = t \<or> (\<exists>c. is_int c \<and> u4 = CHR ''/'' # c @ t)"
    by (simp_all only: mem_ends_port_tail)
  have "p = a @ CHR ''/'' # b @ u4"
    using \<open>u1 = p\<close> a(2) \<open>u2 = CHR ''/'' # u3\<close> b(2) by simp
  with tail have "p = a @ CHR ''/'' # b @ t
                \<or> (\<exists>c. is_int c \<and> p = a @ CHR ''/'' # b @ CHR ''/'' # c @ t)"
    by auto
  with t a(1) b(1) show ?R by blast
next
  assume r: ?R
  then obtain a b where ab: "is_int a" "is_int b"
    and p: "p = a @ CHR ''/'' # b @ t
              \<or> (\<exists>c. is_int c \<and> p = a @ CHR ''/'' # b @ CHR ''/'' # c @ t)"
    by blast
  from r have t: "t = [] \<or> t = [CHR 0x0A]" by blast
  from p obtain u4 where pu: "p = a @ CHR ''/'' # b @ u4"
    and tail: "u4 = t \<or> (\<exists>c. is_int c \<and> u4 = CHR ''/'' # c @ t)"
    by auto
  have r4: "t \<in> set (ends (length p) (Seq (Opt (Seq (Lit (CHR ''/'')) (Plus Digit))) Eos) u4)"
    unfolding mem_ends_port_tail using t tail by blast
  have u4: "u4 \<in> set (ends (length p) (Plus Digit) (b @ u4))"
    using ab(2) by (auto simp add: mem_ends_plus_digit)
  have r3: "t \<in> set (ends (length p) (Seq (Plus Digit)
               (Seq (Opt (Seq (Lit (CHR ''/'')) (Plus Digit))) Eos)) (b @ u4))"
    unfolding mem_ends_Seq [of t _ "Plus Digit"] using u4 r4 by blast
  have u3: "b @ u4 \<in> set (ends (length p) (Lit (CHR ''/'')) (CHR ''/'' # b @ u4))"
    by (simp only: mem_ends_Lit)
  have r2: "t \<in> set (ends (length p) (Seq (Lit (CHR ''/'')) (Seq (Plus Digit)
               (Seq (Opt (Seq (Lit (CHR ''/'')) (Plus Digit))) Eos))) (CHR ''/'' # b @ u4))"
    unfolding mem_ends_Seq [of t _ "Lit (CHR ''/'')"] using u3 r3 by blast
  have u2: "CHR ''/'' # b @ u4 \<in> set (ends (length p) (Plus Digit) p)"
    using ab(1) pu by (auto simp add: mem_ends_plus_digit)
  have r1: "t \<in> set (ends (length p) (Seq (Plus Digit) (Seq (Lit (CHR ''/'')) (Seq (Plus Digit)
               (Seq (Opt (Seq (Lit (CHR ''/'')) (Plus Digit))) Eos)))) p)"
    unfolding mem_ends_Seq [of t _ "Plus Digit"] using u2 r2 by blast
  have u1: "p \<in> set (ends (length p) Bos p)"
    by (simp add: mem_ends_Bos)
  show ?L
    unfolding port_regex_def mem_ends_Seq [of t _ Bos] using u1 r1 by blast
qed

lemma re_match_port_regex:
  "re_match port_regex p \<noteq> None \<longleftrightarrow>
     (\<exists>t. t \<in> set (ends (length p) port_regex p))"
  by (cases "ends (length p) port_regex p") (auto simp add: re_match_def)

lemma validate_port_name_accepts:
  "validate_port_name p = Inr () \<longleftrightarrow>
     port_name_form p \<or> (\<exists>q. port_name_form q \<and> p = q @ [CHR 0x0A])"
    (is "?L \<longleftrightarrow> ?R")
proof -
  have L: "?L \<longleftrightarrow> (\<exists>t. t \<in> set (ends (length p) port_regex p))"
    using re_match_port_regex [of p] unfolding validate_port_name_def by auto
  show ?thesis
  proof
    assume ?L
    then obtain t a b where t: "t = [] \<or> t = [CHR 0x0A]" and ab: "is_int a" "is_int b"
      and p: "p = a @ CHR ''/'' # b @ t
                \<or> (\<exists>c. is_int c \<and> p = a @ CHR ''/'' # b @ CHR ''/'' # c @ t)"
      unfolding L mem_ends_port_regex by blast
    from p obtain q where q: "p = q @ t" and "q = a @ CHR ''/'' # b
        \<or> (\<exists>c. is_int c \<and> q = a @ CHR ''/'' # b @ CHR ''/'' # c)"
      by auto
    with ab have "port_name_form q"
      unfolding port_name_form_iff by blast
    with t q show ?R by auto
  next
    assume ?R
    then obtain q t where t: "t = [] \<or> t = [CHR 0x0A]" and q: "port_name_form q" "p = q @ t"
      by auto
    from q(1) obtain a b where ab: "is_int a" "is_int b"
      and "q = a @ CHR ''/'' # b \<or> (\<exists>c. is_int c \<and> q = a @ CHR ''/'' # b @ CHR ''/'' # c)"
      unfolding port_name_form_iff by blast
    with q(2) have "p = a @ CHR ''/'' # b @ t
                \<or> (\<exists>c. is_int c \<and> p = a @ CHR ''/'' # b @ CHR ''/'' # c @ t)"
      by auto
    with t ab show ?L
      unfolding L mem_ends_port_regex by blast
  qed
qed

text \<open>
  C3. The validator accepts the name \<open>1/2\<close> followed by a newline, which is not of
  the form of two or three integers separated by slashes: \<open>$\<close> in a Python pattern
  also holds before a newline that ends the text. A trailing slash is rejected.
\<close>

theorem validate_port_name_trailing_newline:
  "validate_port_name (''1/2'' @ [CHR 0x0A]) = Inr ()
   \<and> \<not> port_name_form (''1/2'' @ [CHR 0x0A])
   \<and> validate_port_name ''1/2/'' = Inl BadArgumentError"
  by code_simp

subsection \<open>The VLAN list pattern\<close>

text \<open>One token of the VLAN pattern: digits, then optionally a dash and digits.\<close>

lemma mem_ends_token:
  "t \<in> set (ends n token_regex s) \<longleftrightarrow>
     (\<exists>a. is_int a \<and> (s = a @ t \<or> (\<exists>b. is_int b \<and> s = a @ CHR ''-'' # b @ t)))"
    (is "?L \<longleftrightarrow> ?R")
proof
  assume ?L
  then obtain u where u: "u \<in> set (ends n (Plus Digit) s)"
    and r: "t \<in> set (ends n (Opt (Seq (Lit (CHR ''-'')) (Plus Digit))) u)"
    unfolding token_regex_def mem_ends_Seq [of t _ "Plus Digit"] by blast
  from u obtain a where a: "is_int a" "s = a @ u" by (auto simp add: mem_ends_plus_digit)
  from r have "t = u \<or> (\<exists>v. u = CHR ''-'' # v \<and> (\<exists>b. is_int b \<and> v = b @ t))"
    unfolding mem_ends_Opt mem_ends_Seq [of t _ "Lit (CHR ''-'')"] Bex_def mem_ends_Lit
      mem_ends_plus_digit
    by blast
  with a show ?R by auto
next
  assume ?R
  then obtain a where a: "is_int a"
    and s: "s = a @ t \<or> (\<exists>b. is_int b \<and> s = a @ CHR ''-'' # b @ t)"
    by blast
  from s obtain u where su: "s = a @ u"
    and u: "t = u \<or> (\<exists>v. u = CHR ''-'' # v \<and> (\<exists>b. is_int b \<and> v = b @ t))"
    by auto
  have "u \<in> set (ends n (Plus Digit) s)"
    using a su by (auto simp add: mem_ends_plus_digit)
  moreover have "t \<in> set (ends n (Opt (Seq (Lit (CHR ''-'')) (Plus Digit))) u)"
    unfolding mem_ends_Opt mem_ends_Seq [of t _ "Lit (CHR ''-'')"] Bex_def mem_ends_Lit
      mem_ends_plus_digit
    using u by blast
  ultimately show ?L
    unfolding token_regex_def mem_ends_Seq [of t _ "Plus Digit"] by blast
qed

lemma takeWhile_upto_sep:
  "sep \<notin> set a \<Longrightarrow> takeWhile (\<lambda>c. c \<noteq> sep) (a @ sep # b) = a"
  by (induction a) auto

lemma dropWhile_upto_sep:
  "sep \<notin> set a \<Longrightarrow> dropWhile (\<lambda>c. c \<noteq> sep) (a @ sep # b) = sep # b"
  by (induction a) auto

lemma vlan_token_iff:
  "vlan_token w \<longleftrightarrow> is_int w \<or> (\<exists>a b. is_int a \<and> is_int b \<and> w = a @ CHR ''-'' # b)"
proof
  assume "vlan_token w"
  then consider "is_int w"
    | "CHR ''-'' \<in> set w" "is_int (takeWhile (\<lambda>c. c \<noteq> CHR ''-'') w)"
      "is_int (tl (dropWhile (\<lambda>c. c \<noteq> CHR ''-'') w))"
    by (auto simp add: vlan_token_def)
  then show "is_int w \<or> (\<exists>a b. is_int a \<and> is_int b \<and> w = a @ CHR ''-'' # b)"
  proof cases
    case 1
    then show ?thesis by simp
  next
    case 2
    from 2(1) have "dropWhile (\<lambda>c. c \<noteq> CHR ''-'') w \<noteq> []" by simp
    moreover have "hd (dropWhile (\<lambda>c. c \<noteq> CHR ''-'') w) = CHR ''-''"
      using hd_dropWhile [OF calculation] by simp
    ultimately have "dropWhile (\<lambda>c. c \<noteq> CHR ''-'') w
                       = CHR ''-'' # tl (dropWhile (\<lambda>c. c \<noteq> CHR ''-'') w)"
      by (cases "dropWhile (\<lambda>c. c \<noteq> CHR ''-'') w") auto
    then have "w = takeWhile (\<lambda>c. c \<noteq> CHR ''-'') w
                 @ CHR ''-'' # tl (dropWhile (\<lambda>c. c \<noteq> CHR ''-'') w)"
      by (metis takeWhile_dropWhile_id)
    with 2(2,3) show ?thesis by blast
  qed
next
  assume "is_int w \<or> (\<exists>a b. is_int a \<and> is_int b \<and> w = a @ CHR ''-'' # b)"
  then show "vlan_token w"
  proof (elim disjE exE conjE)
    assume "is_int w"
    then show ?thesis by (simp add: vlan_token_def)
  next
    fix a b assume ab: "is_int a" "is_int b" "w = a @ CHR ''-'' # b"
    have "CHR ''-'' \<notin> set a" using ab(1) is_int_chars by blast
    then have "takeWhile (\<lambda>c. c \<noteq> CHR ''-'') w = a" "dropWhile (\<lambda>c. c \<noteq> CHR ''-'') w = CHR ''-'' # b"
      using ab(3) by (simp_all add: takeWhile_upto_sep dropWhile_upto_sep)
    with ab show ?thesis by (simp add: vlan_token_def)
  qed
qed

lemma mem_ends_token_sound:
  assumes "t \<in> set (ends n token_regex s)"
  shows "\<exists>w. vlan_token w \<and> s = w @ t"
proof -
  from assms obtain a where a: "is_int a"
    and s: "s = a @ t \<or> (\<exists>b. is_int b \<and> s = a @ CHR ''-'' # b @ t)"
    unfolding mem_ends_token by blast
  from s show ?thesis
  proof
    assume "s = a @ t"
    with a show ?thesis using vlan_token_iff by blast
  next
    assume "\<exists>b. is_int b \<and> s = a @ CHR ''-'' # b @ t"
    then obtain b where "is_int b" "s = (a @ CHR ''-'' # b) @ t" by auto
    with a show ?thesis using vlan_token_iff by blast
  qed
qed

lemma vlan_token_chars:
  assumes "vlan_token w"
  shows "CHR '','' \<notin> set w" and "w \<noteq> []" and "is_digit (hd w)"
proof -
  from assms consider "is_int w" | a b where "is_int a" "is_int b" "w = a @ CHR ''-'' # b"
    unfolding vlan_token_iff by blast
  then have "CHR '','' \<notin> set w \<and> w \<noteq> [] \<and> is_digit (hd w)"
  proof cases
    case 1
    then show ?thesis
      using is_int_chars [of w] by (cases w) (auto simp add: is_int_def)
  next
    case 2
    then show ?thesis
      using is_int_chars [of a] is_int_chars [of b] by (cases a) (auto simp add: is_int_def)
  qed
  then show "CHR '','' \<notin> set w" and "w \<noteq> []" and "is_digit (hd w)" by simp_all
qed

lemma ends_length: "t \<in> set (ends n r s) \<Longrightarrow> length t \<le> length s"
proof (induction n r s arbitrary: t rule: ends.induct)
  case (1 n s)
  then show ?case by (cases s) (auto split: if_splits)
next
  case (2 n a s)
  then show ?case by (cases s) (auto split: if_splits)
next
  case (3 n s)
  then show ?case by (auto split: if_splits)
next
  case (4 n s)
  then show ?case by (auto split: if_splits)
next
  case (5 n r1 r2 s)
  from "5.prems" obtain u where u: "u \<in> set (ends n r1 s)" and t: "t \<in> set (ends n r2 u)"
    by auto
  from "5.IH"(1) [OF u] "5.IH"(2) [OF u t] show ?case by simp
next
  case (6 n r s)
  then show ?case by auto
next
  case (7 n r s)
  from "7.prems" have "t = s \<or> (\<exists>u \<in> set (ends n r s). length u < length s
      \<and> t \<in> set (ends n (Star r) u))"
    by (subst (asm) ends.simps(7)) auto
  then show ?case
  proof
    assume "t = s"
    then show ?thesis by simp
  next
    assume "\<exists>u \<in> set (ends n r s). length u < length s \<and> t \<in> set (ends n (Star r) u)"
    then obtain u where u: "u \<in> set (ends n r s)" "length u < length s"
      and t: "t \<in> set (ends n (Star r) u)"
      by blast
    have "u \<in> set (filter (\<lambda>t. length t < length s) (ends n r s))"
      using u by simp
    from "7.IH"(2) [OF this t] u(2) show ?thesis by simp
  qed
qed

lemma mem_ends_Star:
  "t \<in> set (ends n (Star r) s) \<longleftrightarrow>
     t = s \<or> (\<exists>u \<in> set (ends n r s). length u < length s \<and> t \<in> set (ends n (Star r) u))"
  by (subst ends.simps(7)) auto

text \<open>What a run of comma-and-token repetitions consumes.\<close>

lemma mem_ends_tokens_sound:
  "t \<in> set (ends n (Star (Seq (Lit (CHR '','')) token_regex)) s) \<Longrightarrow>
   \<exists>ws. list_all vlan_token ws \<and> s = concat (map (\<lambda>w. CHR '','' # w) ws) @ t"
proof (induction "length s" arbitrary: s rule: less_induct)
  case less
  from less.prems consider "t = s"
    | u where "u \<in> set (ends n (Seq (Lit (CHR '','')) token_regex) s)" "length u < length s"
        "t \<in> set (ends n (Star (Seq (Lit (CHR '','')) token_regex)) u)"
    using mem_ends_Star [of t n "Seq (Lit (CHR '','')) token_regex" s] by blast
  then show ?case
  proof cases
    case 1
    then have "list_all vlan_token [] \<and> s = concat (map (\<lambda>w. CHR '','' # w) []) @ t" by simp
    then show ?thesis by blast
  next
    case 2
    from 2(1) obtain v where v: "s = CHR '','' # v" and "u \<in> set (ends n token_regex v)"
      unfolding mem_ends_Seq [of u] Bex_def mem_ends_Lit by blast
    then obtain w where w: "vlan_token w" "v = w @ u"
      using mem_ends_token_sound by blast
    from less.hyps [OF 2(2) 2(3)] obtain ws where ws: "list_all vlan_token ws"
      "u = concat (map (\<lambda>w. CHR '','' # w) ws) @ t"
      by blast
    have "list_all vlan_token (w # ws) \<and> s = concat (map (\<lambda>w. CHR '','' # w) (w # ws)) @ t"
      using v w ws by simp
    then show ?thesis by blast
  qed
qed

lemma split_on_tokens:
  "sep \<notin> set w \<Longrightarrow> list_all (\<lambda>v. sep \<notin> set v) ws \<Longrightarrow>
   split_on sep (w @ concat (map (\<lambda>v. sep # v) ws)) = w # ws"
proof (induction ws arbitrary: w)
  case Nil
  then show ?case by (simp add: split_on_no_sep)
next
  case (Cons v vs)
  then show ?case by (simp add: split_on_append)
qed

lemma vlan_list_form_iff:
  "vlan_list_form m \<longleftrightarrow>
     (\<exists>w ws. vlan_token w \<and> list_all vlan_token ws
        \<and> m = w @ concat (map (\<lambda>v. CHR '','' # v) ws))"
proof
  assume m: "vlan_list_form m"
  obtain w ws where s: "split_on (CHR '','') m = w # ws"
    using split_on_nonempty [of "CHR '',''" m] by (cases "split_on (CHR '','') m") auto
  from m s have "vlan_token w" "list_all vlan_token ws"
    by (simp_all add: vlan_list_form_def)
  with split_on_join [OF s]
  show "\<exists>w ws. vlan_token w \<and> list_all vlan_token ws
        \<and> m = w @ concat (map (\<lambda>v. CHR '','' # v) ws)"
    by blast
next
  assume "\<exists>w ws. vlan_token w \<and> list_all vlan_token ws
        \<and> m = w @ concat (map (\<lambda>v. CHR '','' # v) ws)"
  then obtain w ws where w: "vlan_token w" and ws: "list_all vlan_token ws"
    and m: "m = w @ concat (map (\<lambda>v. CHR '','' # v) ws)"
    by blast
  have "CHR '','' \<notin> set w" using w vlan_token_chars(1) by blast
  moreover have "list_all (\<lambda>v. CHR '','' \<notin> set v) ws"
    using ws vlan_token_chars(1) by (auto simp add: list_all_iff)
  ultimately have "split_on (CHR '','') m = w # ws"
    unfolding m by (rule split_on_tokens)
  with w ws show "vlan_list_form m"
    by (simp add: vlan_list_form_def)
qed

lemma mem_ends_vlan_regex_sound:
  assumes "t \<in> set (ends n vlan_regex s)"
  shows "\<exists>m. vlan_list_form m \<and> s = m @ t"
proof -
  from assms obtain u where u: "u \<in> set (ends n token_regex s)"
    and t: "t \<in> set (ends n (Star (Seq (Lit (CHR '','')) token_regex)) u)"
    unfolding vlan_regex_def mem_ends_Seq [of t] by blast
  from mem_ends_token_sound [OF u] obtain w where w: "vlan_token w" "s = w @ u" by blast
  from mem_ends_tokens_sound [OF t] obtain ws where ws: "list_all vlan_token ws"
    "u = concat (map (\<lambda>w. CHR '','' # w) ws) @ t"
    by blast
  have "vlan_list_form (w @ concat (map (\<lambda>w. CHR '','' # w) ws))"
    unfolding vlan_list_form_iff using w(1) ws(1) by blast
  moreover have "s = (w @ concat (map (\<lambda>w. CHR '','' # w) ws)) @ t"
    using w(2) ws(2) by simp
  ultimately show ?thesis by blast
qed

lemma vlan_list_form_digit:
  assumes "vlan_list_form m"
  shows "m \<noteq> [] \<and> is_digit (hd m)"
proof -
  from assms obtain w ws where "vlan_token w" "m = w @ concat (map (\<lambda>v. CHR '','' # v) ws)"
    unfolding vlan_list_form_iff by blast
  then show ?thesis
    using vlan_token_chars(2,3) [of w] by simp
qed

lemma ends_vlan_regex_empty:
  "ends n vlan_regex s = [] \<longleftrightarrow> s = [] \<or> \<not> is_digit (hd s)"
proof
  assume e: "ends n vlan_regex s = []"
  show "s = [] \<or> \<not> is_digit (hd s)"
  proof (rule ccontr)
    assume "\<not> (s = [] \<or> \<not> is_digit (hd s))"
    then obtain c cs where s: "s = c # cs" and c: "is_digit c" by (cases s) auto
    have "is_int [c] \<and> s = [c] @ cs" using s c by (simp add: is_int_def)
    then have "cs \<in> set (ends n token_regex s)"
      unfolding mem_ends_token by blast
    moreover have "cs \<in> set (ends n (Star (Seq (Lit (CHR '','')) token_regex)) cs)"
      using mem_ends_Star [of cs n _ cs] by blast
    ultimately have "cs \<in> set (ends n vlan_regex s)"
      unfolding vlan_regex_def mem_ends_Seq [of cs] by blast
    with e show False by simp
  qed
next
  assume s: "s = [] \<or> \<not> is_digit (hd s)"
  show "ends n vlan_regex s = []"
  proof (rule ccontr)
    assume "ends n vlan_regex s \<noteq> []"
    then obtain t where "t \<in> set (ends n vlan_regex s)"
      by (cases "ends n vlan_regex s") auto
    from mem_ends_vlan_regex_sound [OF this] obtain m where "vlan_list_form m" "s = m @ t"
      by blast
    with vlan_list_form_digit [of m] s show False by auto
  qed
qed

lemma search_vlan_None:
  "search_from n vlan_regex s = None \<longleftrightarrow> list_all (\<lambda>c. \<not> is_digit c) s"
proof (induction s)
  case Nil
  have "ends n vlan_regex [] = []" by (simp add: ends_vlan_regex_empty)
  then show ?case by simp
next
  case (Cons c cs)
  show ?case
  proof (cases "is_digit c")
    case True
    then have "ends n vlan_regex (c # cs) \<noteq> []" by (simp add: ends_vlan_regex_empty)
    then show ?thesis using True by (cases "ends n vlan_regex (c # cs)") auto
  next
    case False
    then have "ends n vlan_regex (c # cs) = []" by (simp add: ends_vlan_regex_empty)
    then show ?thesis using False Cons.IH by simp
  qed
qed

text \<open>Expanding the tokens of a well-formed list never fails.\<close>

lemma int_of_string_number: "is_int a \<Longrightarrow> int_of_string a = Inr (number a)"
  by (simp add: int_of_string_def number_def)

lemma expand_token_vlans:
  assumes "vlan_token tok"
  shows "\<exists>xs. expand_token tok = Inr xs \<and> set xs = token_vlans tok"
proof -
  from assms consider "is_int tok"
    | a b where "is_int a" "is_int b" "tok = a @ CHR ''-'' # b"
    unfolding vlan_token_iff by blast
  then show ?thesis
  proof cases
    case 1
    then have "CHR ''-'' \<notin> set tok" using is_int_chars by blast
    with 1 show ?thesis
      by (simp add: expand_token_def token_vlans_def int_of_string_number)
  next
    case 2
    have "CHR ''-'' \<notin> set a" using 2(1) is_int_chars by blast
    then have "takeWhile (\<lambda>c. c \<noteq> CHR ''-'') tok = a"
      "dropWhile (\<lambda>c. c \<noteq> CHR ''-'') tok = CHR ''-'' # b"
      using 2(3) by (simp_all add: takeWhile_upto_sep dropWhile_upto_sep)
    with 2 have "expand_token tok = Inr [number a..<Suc (number b)]"
      and "token_vlans tok = {number a..number b}"
      by (simp_all add: expand_token_def token_vlans_def int_of_string_number)
    moreover have "set [number a..<Suc (number b)] = {number a..number b}"
      by auto
    ultimately show ?thesis by simp
  qed
qed

lemma collect_expand:
  "list_all vlan_token toks \<Longrightarrow>
   \<exists>xs. collect (map expand_token toks) = Inr xs \<and> set xs = (\<Union>tok \<in> set toks. token_vlans tok)"
proof (induction toks)
  case Nil
  then show ?case by simp
next
  case (Cons tok toks)
  from Cons.prems have "vlan_token tok" "list_all vlan_token toks" by simp_all
  from expand_token_vlans [OF this(1)] obtain xs where xs: "expand_token tok = Inr xs"
    "set xs = token_vlans tok"
    by blast
  from Cons.IH [OF \<open>list_all vlan_token toks\<close>] obtain ys where
    ys: "collect (map expand_token toks) = Inr ys" "set ys = (\<Union>tok \<in> set toks. token_vlans tok)"
    by blast
  have "collect (map expand_token (tok # toks)) = Inr (xs @ ys)"
    using xs(1) ys(1) by simp
  moreover have "set (xs @ ys) = (\<Union>tok \<in> set (tok # toks). token_vlans tok)"
    using xs(2) ys(2) by simp
  ultimately show ?case by blast
qed

lemma parse_vlans_form:
  "vlan_list_form m \<Longrightarrow>
   \<exists>xs. parse_vlans m = Inr xs
      \<and> set xs = (\<Union>tok \<in> set (split_on (CHR '','') m). token_vlans tok)"
  unfolding parse_vlans_def vlan_list_form_def by (rule collect_expand)

lemma substring_form_iff:
  "(\<exists>pre m post. t = pre @ m @ post \<and> vlan_list_form m) \<longleftrightarrow>
     \<not> list_all (\<lambda>c. \<not> is_digit c) t"
proof
  assume "\<exists>pre m post. t = pre @ m @ post \<and> vlan_list_form m"
  then obtain pre m post where t: "t = pre @ m @ post" and m: "vlan_list_form m" by blast
  from vlan_list_form_digit [OF m] obtain d m' where "m = d # m'" "is_digit d"
    by (cases m) auto
  with t show "\<not> list_all (\<lambda>c. \<not> is_digit c) t" by simp
next
  assume "\<not> list_all (\<lambda>c. \<not> is_digit c) t"
  then obtain c where "c \<in> set t" and c: "is_digit c" by (auto simp add: list_all_iff)
  then obtain pre post where t: "t = pre @ c # post" by (auto dest: split_list)
  have "vlan_token [c]" using c by (simp add: vlan_token_def is_int_def)
  moreover have "c \<noteq> CHR '',''" using c is_digit_chars by blast
  ultimately have "vlan_list_form [c]"
    by (simp add: vlan_list_form_def)
  with t have "t = pre @ [c] @ post \<and> vlan_list_form [c]" by simp
  then show "\<exists>pre m post. t = pre @ m @ post \<and> vlan_list_form m" by blast
qed

lemma first_match:
  assumes "list_all (\<lambda>c. \<not> is_digit c) pre"
      and "pre @ m @ post = pre' @ m' @ post'"
      and "vlan_list_form m'"
  shows "length pre \<le> length pre'"
proof (rule ccontr)
  assume "\<not> length pre \<le> length pre'"
  then have less: "length pre' < length pre" by simp
  from vlan_list_form_digit [OF assms(3)] obtain d m'' where m': "m' = d # m''" and d: "is_digit d"
    by (cases m') auto
  have "(pre @ m @ post) ! length pre' = pre ! length pre'"
    using less by (simp add: nth_append)
  moreover have "(pre' @ m' @ post') ! length pre' = d"
    using m' by simp
  ultimately have "pre ! length pre' = d" using assms(2) by simp
  moreover have "pre ! length pre' \<in> set pre" using less by simp
  ultimately show False using assms(1) d by (auto simp add: list_all_iff)
qed

subsection \<open>The greedy match is the longest\<close>

text \<open>The first end is the greedy one: every other way of matching leaves more text.\<close>

lemma ends_star_digit_first:
  "\<exists>others. ends n (Star Digit) s = dropWhile is_digit s # others
     \<and> (\<forall>y \<in> set others. y \<noteq> [] \<and> is_digit (hd y)
           \<and> length (dropWhile is_digit s) < length y)"
proof (induction s)
  case Nil
  show ?case by (simp add: ends_star_digit_Nil)
next
  case (Cons c cs)
  show ?case
  proof (cases "is_digit c")
    case True
    from Cons.IH obtain others where o: "ends n (Star Digit) cs = dropWhile is_digit cs # others"
      "\<forall>y \<in> set others. y \<noteq> [] \<and> is_digit (hd y) \<and> length (dropWhile is_digit cs) < length y"
      by blast
    have len: "length (dropWhile is_digit cs) < length (c # cs)"
      using length_dropWhile_le [of is_digit cs] by simp
    have "ends n (Star Digit) (c # cs) = dropWhile is_digit (c # cs) # (others @ [c # cs])"
      using True o(1) by (simp add: ends_star_digit_Cons)
    moreover have "\<forall>y \<in> set (others @ [c # cs]). y \<noteq> [] \<and> is_digit (hd y)
           \<and> length (dropWhile is_digit (c # cs)) < length y"
      using True o(2) len by auto
    ultimately show ?thesis by blast
  next
    case False
    then have "ends n (Star Digit) (c # cs) = dropWhile is_digit (c # cs) # []"
      by (simp add: ends_star_digit_Cons)
    then show ?thesis by auto
  qed
qed

lemma ends_plus_digit_first:
  assumes "is_digit c"
  shows "\<exists>others. ends n (Plus Digit) (c # cs) = dropWhile is_digit cs # others
     \<and> (\<forall>y \<in> set others. y \<noteq> [] \<and> is_digit (hd y)
           \<and> length (dropWhile is_digit cs) < length y)"
proof -
  have "ends n (Plus Digit) (c # cs) = ends n (Star Digit) cs"
    using assms by (simp add: Plus_def)
  then show ?thesis using ends_star_digit_first [of n cs] by simp
qed

lemma ends_plus_digit_none:
  "s = [] \<or> \<not> is_digit (hd s) \<Longrightarrow> ends n (Plus Digit) s = []"
  by (cases s) (auto simp add: Plus_def)

lemma ends_dash_digits:
  "ends n (Seq (Lit (CHR ''-'')) (Plus Digit)) u =
     (case u of [] \<Rightarrow> [] | x # v \<Rightarrow> if x = CHR ''-'' then ends n (Plus Digit) v else [])"
  by (cases u) auto

lemma ends_Opt_fun: "ends n (Opt r) = (\<lambda>u. ends n r u @ [u])"
  by (rule ext) simp

lemma concat_singletons:
  "(\<And>y. y \<in> set ys \<Longrightarrow> f y = [y]) \<Longrightarrow> concat (map f ys) = ys"
  by (induction ys) auto

lemma ends_token_first:
  assumes "is_digit c"
  shows "\<exists>h others. ends n token_regex (c # cs) = h # others
     \<and> (\<forall>y \<in> set others. y \<noteq> [] \<and> (is_digit (hd y) \<or> hd y = CHR ''-'') \<and> length h < length y)"
proof -
  let ?opt = "\<lambda>u. ends n (Seq (Lit (CHR ''-'')) (Plus Digit)) u @ [u]"
  define u where "u = dropWhile is_digit cs"
  from ends_plus_digit_first [OF assms, of n cs] obtain others
    where p: "ends n (Plus Digit) (c # cs) = u # others"
      and o: "\<forall>y \<in> set others. y \<noteq> [] \<and> is_digit (hd y) \<and> length u < length y"
    unfolding u_def by blast
  have single: "?opt y = [y]" if "y \<in> set others" for y
  proof -
    from o that obtain d y' where "y = d # y'" "is_digit d" by (cases y) auto
    then have "d \<noteq> CHR ''-''" using is_digit_chars by blast
    with \<open>y = d # y'\<close> show ?thesis by (simp add: ends_dash_digits)
  qed
  have "concat (map ?opt others) = others"
    using single by (rule concat_singletons)
  moreover have "ends n token_regex (c # cs) = concat (map ?opt (ends n (Plus Digit) (c # cs)))"
    unfolding token_regex_def by (subst ends.simps(5)) (simp only: ends_Opt_fun)
  ultimately have tok: "ends n token_regex (c # cs) = ?opt u @ others"
    using p by simp
  show ?thesis
  proof (cases "\<exists>d v. u = CHR ''-'' # d # v \<and> is_digit d")
    case True
    then obtain d v where u: "u = CHR ''-'' # d # v" and d: "is_digit d" by blast
    from ends_plus_digit_first [OF d, of n v] obtain vothers
      where q: "ends n (Plus Digit) (d # v) = dropWhile is_digit v # vothers"
        and vo: "\<forall>y \<in> set vothers. y \<noteq> [] \<and> is_digit (hd y)
                   \<and> length (dropWhile is_digit v) < length y"
      by blast
    have lenv: "length (dropWhile is_digit v) < length u"
      using length_dropWhile_le [of is_digit v] u by simp
    have "ends n token_regex (c # cs) = dropWhile is_digit v # (vothers @ [u] @ others)"
      using tok q unfolding u by (simp add: ends_dash_digits)
    moreover have "\<forall>y \<in> set (vothers @ [u] @ others).
        y \<noteq> [] \<and> (is_digit (hd y) \<or> hd y = CHR ''-'') \<and> length (dropWhile is_digit v) < length y"
    proof
      fix y assume "y \<in> set (vothers @ [u] @ others)"
      then consider "y \<in> set vothers" | "y = u" | "y \<in> set others" by auto
      then show "y \<noteq> [] \<and> (is_digit (hd y) \<or> hd y = CHR ''-'')
          \<and> length (dropWhile is_digit v) < length y"
      proof cases
        case 1
        with vo show ?thesis by blast
      next
        case 2
        with u lenv show ?thesis by simp
      next
        case 3
        with o lenv show ?thesis by fastforce
      qed
    qed
    ultimately show ?thesis by blast
  next
    case False
    have "ends n (Seq (Lit (CHR ''-'')) (Plus Digit)) u = []"
    proof (cases u)
      case Nil
      then show ?thesis by (simp add: ends_dash_digits)
    next
      case (Cons x v)
      show ?thesis
      proof (cases "x = CHR ''-''")
        case True
        with Cons False have "v = [] \<or> \<not> is_digit (hd v)" by (cases v) auto
        then have "ends n (Plus Digit) v = []" by (rule ends_plus_digit_none)
        with Cons True show ?thesis by (simp add: ends_dash_digits)
      next
        case False
        with Cons show ?thesis by (simp add: ends_dash_digits)
      qed
    qed
    then have "ends n token_regex (c # cs) = u # others"
      using tok by simp
    moreover have "\<forall>y \<in> set others. y \<noteq> [] \<and> (is_digit (hd y) \<or> hd y = CHR ''-'')
        \<and> length u < length y"
      using o by blast
    ultimately show ?thesis by blast
  qed
qed

lemma ends_token_none:
  "s = [] \<or> \<not> is_digit (hd s) \<Longrightarrow> ends n token_regex s = []"
  unfolding token_regex_def by (subst ends.simps(5)) (simp add: ends_plus_digit_none)

lemma ends_comma_token:
  "ends n (Seq (Lit (CHR '','')) token_regex) s =
     (case s of [] \<Rightarrow> [] | x # v \<Rightarrow> if x = CHR '','' then ends n token_regex v else [])"
  by (cases s) auto

lemma ends_tokens_no_comma:
  assumes "s = [] \<or> hd s \<noteq> CHR '',''"
  shows "ends n (Star (Seq (Lit (CHR '','')) token_regex)) s = [s]"
proof -
  have "ends n (Seq (Lit (CHR '','')) token_regex) s = []"
    using assms by (cases s) (auto simp add: ends_comma_token)
  then show ?thesis by (subst ends.simps(7)) simp
qed

lemma ends_tokens_others:
  assumes "\<forall>y \<in> set others. y \<noteq> [] \<and> (is_digit (hd y) \<or> hd y = CHR ''-'') \<and> P y"
  shows "concat (map (ends n (Star (Seq (Lit (CHR '','')) token_regex))) others) = others"
proof (rule concat_singletons)
  fix y assume "y \<in> set others"
  with assms have "y \<noteq> []" "is_digit (hd y) \<or> hd y = CHR ''-''" by auto
  then have "hd y \<noteq> CHR '',''" using is_digit_chars by auto
  then show "ends n (Star (Seq (Lit (CHR '','')) token_regex)) y = [y]"
    by (simp add: ends_tokens_no_comma)
qed

lemma ends_tokens_first:
  "ends n (Star (Seq (Lit (CHR '','')) token_regex)) u \<noteq> []
   \<and> (\<forall>t \<in> set (ends n (Star (Seq (Lit (CHR '','')) token_regex)) u).
         length (hd (ends n (Star (Seq (Lit (CHR '','')) token_regex)) u)) \<le> length t)"
proof (induction "length u" arbitrary: u rule: less_induct)
  case less
  let ?S = "Star (Seq (Lit (CHR '','')) token_regex)"
  show ?case
  proof (cases "\<exists>c cs. u = CHR '','' # c # cs \<and> is_digit c")
    case False
    have "ends n (Seq (Lit (CHR '','')) token_regex) u = []"
    proof (cases u)
      case Nil
      then show ?thesis by (simp add: ends_comma_token)
    next
      case (Cons x v)
      show ?thesis
      proof (cases "x = CHR '',''")
        case True
        with Cons False have "v = [] \<or> \<not> is_digit (hd v)" by (cases v) auto
        then have "ends n token_regex v = []" by (rule ends_token_none)
        with Cons True show ?thesis by (simp add: ends_comma_token)
      next
        case False
        with Cons show ?thesis by (simp add: ends_comma_token)
      qed
    qed
    then have "ends n ?S u = [u]" by (subst ends.simps(7)) simp
    then show ?thesis by simp
  next
    case True
    then obtain c cs where u: "u = CHR '','' # c # cs" and c: "is_digit c" by blast
    from ends_token_first [OF c, of n cs] obtain h others
      where tok: "ends n token_regex (c # cs) = h # others"
        and o: "\<forall>y \<in> set others. y \<noteq> [] \<and> (is_digit (hd y) \<or> hd y = CHR ''-'')
                  \<and> length h < length y"
      by blast
    have short: "length t \<le> length (c # cs)" if "t \<in> set (h # others)" for t
      using that ends_length [of t n token_regex "c # cs"] tok by simp
    then have keep: "filter (\<lambda>t. length t < length u) (h # others) = h # others"
      unfolding u by (intro filter_True ballI) fastforce
    have "ends n ?S u
            = concat (map (ends n ?S) (filter (\<lambda>t. length t < length u) (h # others))) @ [u]"
      by (subst ends.simps(7)) (simp add: u ends_comma_token tok)
    also have "\<dots> = ends n ?S h @ concat (map (ends n ?S) others) @ [u]"
      unfolding keep by simp
    also have "concat (map (ends n ?S) others) = others"
      using o by (rule ends_tokens_others)
    finally have list: "ends n ?S u = ends n ?S h @ others @ [u]" .
    have hu: "length h < length u" using short [of h] u by simp
    from less.hyps [OF hu] have ne: "ends n ?S h \<noteq> []"
      and min: "\<forall>t \<in> set (ends n ?S h). length (hd (ends n ?S h)) \<le> length t"
      by simp_all
    have hd: "hd (ends n ?S u) = hd (ends n ?S h)"
      using list ne by simp
    have hh: "length (hd (ends n ?S h)) \<le> length h"
      using ne ends_length [of "hd (ends n ?S h)" n ?S h] by simp
    have "length (hd (ends n ?S h)) \<le> length t" if "t \<in> set (ends n ?S u)" for t
    proof -
      from that list consider "t \<in> set (ends n ?S h)" | "t \<in> set others" | "t = u" by auto
      then show ?thesis
      proof cases
        case 1
        with min show ?thesis by blast
      next
        case 2
        with o hh show ?thesis by fastforce
      next
        case 3
        with hh hu show ?thesis by simp
      qed
    qed
    with hd list ne show ?thesis by simp
  qed
qed

lemma ends_vlan_regex_first:
  "\<forall>t \<in> set (ends n vlan_regex s). length (hd (ends n vlan_regex s)) \<le> length t"
proof (cases "s = [] \<or> \<not> is_digit (hd s)")
  case True
  then have "ends n vlan_regex s = []" by (simp add: ends_vlan_regex_empty)
  then show ?thesis by simp
next
  case False
  let ?S = "Star (Seq (Lit (CHR '','')) token_regex)"
  from False obtain c cs where s: "s = c # cs" and c: "is_digit c" by (cases s) auto
  from ends_token_first [OF c, of n cs] obtain h others
    where tok: "ends n token_regex (c # cs) = h # others"
      and o: "\<forall>y \<in> set others. y \<noteq> [] \<and> (is_digit (hd y) \<or> hd y = CHR ''-'')
                \<and> length h < length y"
    by blast
  have "ends n vlan_regex s = concat (map (ends n ?S) (h # others))"
    unfolding vlan_regex_def s by (subst ends.simps(5)) (simp only: tok)
  also have "\<dots> = ends n ?S h @ concat (map (ends n ?S) others)" by simp
  also have "concat (map (ends n ?S) others) = others"
    using o by (rule ends_tokens_others)
  finally have list: "ends n vlan_regex s = ends n ?S h @ others" .
  from ends_tokens_first [of n h] have ne: "ends n ?S h \<noteq> []"
    and min: "\<forall>t \<in> set (ends n ?S h). length (hd (ends n ?S h)) \<le> length t"
    by simp_all
  have hd: "hd (ends n vlan_regex s) = hd (ends n ?S h)"
    using list ne by simp
  have hh: "length (hd (ends n ?S h)) \<le> length h"
    using ne ends_length [of "hd (ends n ?S h)" n ?S h] by simp
  show ?thesis
  proof
    fix t assume "t \<in> set (ends n vlan_regex s)"
    with list consider "t \<in> set (ends n ?S h)" | "t \<in> set others" by auto
    then show "length (hd (ends n vlan_regex s)) \<le> length t"
    proof cases
      case 1
      with min hd show ?thesis by simp
    next
      case 2
      with o hh hd show ?thesis by fastforce
    qed
  qed
qed

lemma mem_ends_token_complete:
  assumes "vlan_token w"
  shows "u \<in> set (ends n token_regex (w @ u))"
proof -
  from assms consider "is_int w" | a b where "is_int a" "is_int b" "w = a @ CHR ''-'' # b"
    unfolding vlan_token_iff by blast
  then have "\<exists>a. is_int a \<and> (w @ u = a @ u \<or> (\<exists>b. is_int b \<and> w @ u = a @ CHR ''-'' # b @ u))"
  proof cases
    case 1
    then show ?thesis by blast
  next
    case 2
    then have "is_int a \<and> (\<exists>b. is_int b \<and> w @ u = a @ CHR ''-'' # b @ u)" by simp
    then show ?thesis by blast
  qed
  then show ?thesis unfolding mem_ends_token .
qed

lemma mem_ends_tokens_complete:
  "list_all vlan_token ws \<Longrightarrow>
   t \<in> set (ends n (Star (Seq (Lit (CHR '','')) token_regex))
              (concat (map (\<lambda>w. CHR '','' # w) ws) @ t))"
proof (induction ws)
  case Nil
  show ?case using mem_ends_Star [of t n _ t] by simp
next
  case (Cons w ws)
  let ?X = "Seq (Lit (CHR '','')) token_regex"
  let ?u = "concat (map (\<lambda>w. CHR '','' # w) ws) @ t"
  from Cons.prems have w: "vlan_token w" and ws: "list_all vlan_token ws" by simp_all
  have "?u \<in> set (ends n token_regex (w @ ?u))"
    using w by (rule mem_ends_token_complete)
  then have 1: "?u \<in> set (ends n ?X (CHR '','' # w @ ?u))"
    by (simp add: ends_comma_token)
  have 2: "length ?u < length (CHR '','' # w @ ?u)" by simp
  have 3: "t \<in> set (ends n (Star ?X) ?u)" using Cons.IH [OF ws] .
  have "t \<in> set (ends n (Star ?X) (CHR '','' # w @ ?u))"
    using mem_ends_Star [of t n ?X "CHR '','' # w @ ?u"] 1 2 3 by blast
  then show ?case by simp
qed

lemma mem_ends_vlan_regex_complete:
  assumes "vlan_list_form m"
  shows "t \<in> set (ends n vlan_regex (m @ t))"
proof -
  from assms obtain w ws where w: "vlan_token w" and ws: "list_all vlan_token ws"
    and m: "m = w @ concat (map (\<lambda>v. CHR '','' # v) ws)"
    unfolding vlan_list_form_iff by blast
  let ?u = "concat (map (\<lambda>v. CHR '','' # v) ws) @ t"
  have "?u \<in> set (ends n token_regex (w @ ?u))"
    using w by (rule mem_ends_token_complete)
  moreover have "t \<in> set (ends n (Star (Seq (Lit (CHR '','')) token_regex)) ?u)"
    using ws by (rule mem_ends_tokens_complete)
  ultimately have "t \<in> set (ends n vlan_regex (w @ ?u))"
    unfolding vlan_regex_def mem_ends_Seq [of t] by blast
  then show ?thesis by (simp add: m)
qed

lemma search_vlan_Some:
  "search_from n vlan_regex s = Some m \<Longrightarrow>
   \<exists>pre post. s = pre @ m @ post \<and> list_all (\<lambda>c. \<not> is_digit c) pre \<and> vlan_list_form m
     \<and> (\<forall>m' post'. m @ post = m' @ post' \<and> vlan_list_form m' \<longrightarrow> length m' \<le> length m)"
proof (induction s)
  case Nil
  have "ends n vlan_regex [] = []" by (simp add: ends_vlan_regex_empty)
  with Nil show ?case by simp
next
  case (Cons c cs)
  show ?case
  proof (cases "ends n vlan_regex (c # cs)")
    case Nil
    then have c: "\<not> is_digit c" by (simp add: ends_vlan_regex_empty)
    from Nil Cons.prems have "search_from n vlan_regex cs = Some m" by simp
    from Cons.IH [OF this] obtain pre post where "cs = pre @ m @ post"
      "list_all (\<lambda>c. \<not> is_digit c) pre" "vlan_list_form m"
      "\<forall>m' post'. m @ post = m' @ post' \<and> vlan_list_form m' \<longrightarrow> length m' \<le> length m"
      by blast
    with c have "c # cs = (c # pre) @ m @ post \<and> list_all (\<lambda>c. \<not> is_digit c) (c # pre)
        \<and> vlan_list_form m
        \<and> (\<forall>m' post'. m @ post = m' @ post' \<and> vlan_list_form m' \<longrightarrow> length m' \<le> length m)"
      by simp
    then show ?thesis by blast
  next
    case (Cons rest others)
    then have "rest \<in> set (ends n vlan_regex (c # cs))" by simp
    from mem_ends_vlan_regex_sound [OF this] obtain w where w: "vlan_list_form w"
      "c # cs = w @ rest"
      by blast
    from Cons Cons.prems have "m = take (length (c # cs) - length rest) (c # cs)" by simp
    also have "\<dots> = w" unfolding w(2) by simp
    finally have mw: "m = w" .
    have longest: "length m' \<le> length m" if "m @ rest = m' @ post'" "vlan_list_form m'"
      for m' post'
    proof -
      have "post' \<in> set (ends n vlan_regex (m' @ post'))"
        using that(2) by (rule mem_ends_vlan_regex_complete)
      then have "post' \<in> set (ends n vlan_regex (c # cs))"
        using that(1) w(2) mw by simp
      with ends_vlan_regex_first [of n "c # cs"] Cons have "length rest \<le> length post'"
        by auto
      moreover have "length m + length rest = length m' + length post'"
        using that(1) by (metis length_append)
      ultimately show ?thesis by simp
    qed
    have "c # cs = [] @ m @ rest \<and> list_all (\<lambda>c. \<not> is_digit c) []
        \<and> vlan_list_form m
        \<and> (\<forall>m' post'. m @ rest = m' @ post' \<and> vlan_list_form m' \<longrightarrow> length m' \<le> length m)"
      using w mw longest by simp
    then show ?thesis by blast
  qed
qed

subsection \<open>The VLAN-list decoding\<close>

text \<open>
  C6. For every text: when no substring has the form of a VLAN list, the decoding is
  the empty list. Otherwise the text splits into a prefix, a substring of that form
  and a rest, such that no substring of that form starts earlier in the text and none
  that starts at the same place is longer, and the decoding returns, under the names
  \<open>vlan/x\<close>, exactly the VLANs of the tokens of that substring: a bare integer
  itself, \<open>lo-hi\<close> every integer from \<open>lo\<close> to \<open>hi\<close>. In particular the two texts
  of the specification decode as it says.
\<close>

theorem vlans_of_text_decodes:
  "((\<nexists>pre m post. t = pre @ m @ post \<and> vlan_list_form m)
      \<longrightarrow> vlans_of_text (Some t) = Inr [])
   \<and> ((\<exists>pre m post. t = pre @ m @ post \<and> vlan_list_form m)
      \<longrightarrow> (\<exists>pre m post xs.
            t = pre @ m @ post \<and> vlan_list_form m
            \<and> (\<forall>pre' m' post'. t = pre' @ m' @ post' \<and> vlan_list_form m'
                  \<longrightarrow> length pre \<le> length pre')
            \<and> (\<forall>m' post'. m @ post = m' @ post' \<and> vlan_list_form m'
                  \<longrightarrow> length m' \<le> length m)
            \<and> vlans_of_text (Some t) = Inr xs
            \<and> snd ` set xs = (\<Union>tok \<in> set (split_on (CHR '','') m). token_vlans tok)
            \<and> list_all (\<lambda>(name, x). name = ''vlan/'' @ string_of_nat x) xs))
   \<and> map_sum id (map snd) (vlans_of_text (Some ''12,14-18,23,28,80-90''))
       = Inr [12, 14, 15, 16, 17, 18, 23, 28, 80, 81, 82, 83, 84, 85, 86, 87, 88, 89, 90]
   \<and> vlans_of_text (Some ''20'') = Inr [(''vlan/20'', 20)]"
proof (intro conjI impI)
  assume "\<nexists>pre m post. t = pre @ m @ post \<and> vlan_list_form m"
  then have "list_all (\<lambda>c. \<not> is_digit c) t"
    using substring_form_iff [of t] by blast
  then have "re_search vlan_regex t = None"
    by (simp add: re_search_def search_vlan_None)
  then show "vlans_of_text (Some t) = Inr []"
    by (simp add: vlans_of_text_def)
next
  assume "\<exists>pre m post. t = pre @ m @ post \<and> vlan_list_form m"
  then have "\<not> list_all (\<lambda>c. \<not> is_digit c) t"
    using substring_form_iff [of t] by blast
  then have "re_search vlan_regex t \<noteq> None"
    by (simp add: re_search_def search_vlan_None)
  then obtain m where m: "re_search vlan_regex t = Some m" by blast
  then have "search_from (length t) vlan_regex t = Some m" by (simp add: re_search_def)
  from search_vlan_Some [OF this] obtain pre post where t: "t = pre @ m @ post"
    and pre: "list_all (\<lambda>c. \<not> is_digit c) pre" and form: "vlan_list_form m"
    and longest: "\<forall>m' post'. m @ post = m' @ post' \<and> vlan_list_form m'
                    \<longrightarrow> length m' \<le> length m"
    by blast
  from parse_vlans_form [OF form] obtain ys where ys: "parse_vlans m = Inr ys"
    "set ys = (\<Union>tok \<in> set (split_on (CHR '','') m). token_vlans tok)"
    by blast
  let ?xs = "map (\<lambda>x. (''vlan/'' @ string_of_nat x, x)) ys"
  have first: "\<forall>pre' m' post'. t = pre' @ m' @ post' \<and> vlan_list_form m'
                  \<longrightarrow> length pre \<le> length pre'"
  proof (intro allI impI)
    fix pre' m' post'
    assume a: "t = pre' @ m' @ post' \<and> vlan_list_form m'"
    then have "pre @ m @ post = pre' @ m' @ post'" using t by simp
    from first_match [OF pre this] a show "length pre \<le> length pre'" by simp
  qed
  have res: "vlans_of_text (Some t) = Inr ?xs"
    using m ys(1) by (simp add: vlans_of_text_def)
  have img: "snd ` set ?xs = (\<Union>tok \<in> set (split_on (CHR '','') m). token_vlans tok)"
    using ys(2) by (simp add: image_image)
  have names: "list_all (\<lambda>(name, x). name = ''vlan/'' @ string_of_nat x) ?xs"
    by (simp add: list_all_iff)
  show "\<exists>pre m post xs.
            t = pre @ m @ post \<and> vlan_list_form m
            \<and> (\<forall>pre' m' post'. t = pre' @ m' @ post' \<and> vlan_list_form m'
                  \<longrightarrow> length pre \<le> length pre')
            \<and> (\<forall>m' post'. m @ post = m' @ post' \<and> vlan_list_form m'
                  \<longrightarrow> length m' \<le> length m)
            \<and> vlans_of_text (Some t) = Inr xs
            \<and> snd ` set xs = (\<Union>tok \<in> set (split_on (CHR '','') m). token_vlans tok)
            \<and> list_all (\<lambda>(name, x). name = ''vlan/'' @ string_of_nat x) xs"
  proof (rule exI [of _ pre], rule exI [of _ m], rule exI [of _ post], rule exI [of _ ?xs],
      intro conjI)
    show "t = pre @ m @ post" by (rule t)
    show "vlan_list_form m" by (rule form)
    show "\<forall>pre' m' post'. t = pre' @ m' @ post' \<and> vlan_list_form m'
                  \<longrightarrow> length pre \<le> length pre'" by (rule first)
    show "\<forall>m' post'. m @ post = m' @ post' \<and> vlan_list_form m'
                  \<longrightarrow> length m' \<le> length m" by (rule longest)
    show "vlans_of_text (Some t) = Inr ?xs" by (rule res)
    show "snd ` set ?xs = (\<Union>tok \<in> set (split_on (CHR '','') m). token_vlans tok)"
      by (rule img)
    show "list_all (\<lambda>(name, x). name = ''vlan/'' @ string_of_nat x) ?xs" by (rule names)
  qed
next
  show "map_sum id (map snd) (vlans_of_text (Some ''12,14-18,23,28,80-90''))
       = Inr [12, 14, 15, 16, 17, 18, 23, 28, 80, 81, 82, 83, 84, 85, 86, 87, 88, 89, 90]"
    by code_simp
next
  show "vlans_of_text (Some ''20'') = Inr [(''vlan/20'', 20)]"
    by code_simp
qed

theorem vlans_of_text_decodes_witness:
  "vlans_of_text (Some ''none'') = Inr []
   \<and> (\<exists>pre m post xs.
         ''a 3-5,9 b'' = pre @ m @ post \<and> vlan_list_form m
         \<and> vlans_of_text (Some ''a 3-5,9 b'') = Inr xs
         \<and> snd ` set xs = (\<Union>tok \<in> set (split_on (CHR '','') m). token_vlans tok))"
proof (rule conjI)
  have nodigit: "list_all (\<lambda>c. \<not> is_digit c) ''none''"
    by (simp add: is_digit_def)
  have a: "\<nexists>pre m post. ''none'' = pre @ m @ post \<and> vlan_list_form m"
  proof
    assume "\<exists>pre m post. ''none'' = pre @ m @ post \<and> vlan_list_form m"
    then have "\<not> list_all (\<lambda>c. \<not> is_digit c) ''none''"
      by (rule iffD1 [OF substring_form_iff])
    then show False using nodigit by (rule notE)
  qed
  have "(\<nexists>pre m post. ''none'' = pre @ m @ post \<and> vlan_list_form m)
          \<longrightarrow> vlans_of_text (Some ''none'') = Inr []"
    using vlans_of_text_decodes [of "''none''"] by (rule conjunct1)
  then show "vlans_of_text (Some ''none'') = Inr []"
    using a by (rule mp)
next
  have "vlan_list_form ''3-5,9''"
    by code_simp
  then have "''a 3-5,9 b'' = ''a '' @ ''3-5,9'' @ '' b'' \<and> vlan_list_form ''3-5,9''"
    by simp
  then have b: "\<exists>pre m post. ''a 3-5,9 b'' = pre @ m @ post \<and> vlan_list_form m"
    by (intro exI)
  have "(\<exists>pre m post. ''a 3-5,9 b'' = pre @ m @ post \<and> vlan_list_form m)
      \<longrightarrow> (\<exists>pre m post xs.
            ''a 3-5,9 b'' = pre @ m @ post \<and> vlan_list_form m
            \<and> (\<forall>pre' m' post'. ''a 3-5,9 b'' = pre' @ m' @ post' \<and> vlan_list_form m'
                  \<longrightarrow> length pre \<le> length pre')
            \<and> (\<forall>m' post'. m @ post = m' @ post' \<and> vlan_list_form m'
                  \<longrightarrow> length m' \<le> length m)
            \<and> vlans_of_text (Some ''a 3-5,9 b'') = Inr xs
            \<and> snd ` set xs = (\<Union>tok \<in> set (split_on (CHR '','') m). token_vlans tok)
            \<and> list_all (\<lambda>(name, x). name = ''vlan/'' @ string_of_nat x) xs)"
    using vlans_of_text_decodes [of "''a 3-5,9 b''"] by (rule conjunct1 [OF conjunct2])
  then have "\<exists>pre m post xs.
            ''a 3-5,9 b'' = pre @ m @ post \<and> vlan_list_form m
            \<and> (\<forall>pre' m' post'. ''a 3-5,9 b'' = pre' @ m' @ post' \<and> vlan_list_form m'
                  \<longrightarrow> length pre \<le> length pre')
            \<and> (\<forall>m' post'. m @ post = m' @ post' \<and> vlan_list_form m'
                  \<longrightarrow> length m' \<le> length m)
            \<and> vlans_of_text (Some ''a 3-5,9 b'') = Inr xs
            \<and> snd ` set xs = (\<Union>tok \<in> set (split_on (CHR '','') m). token_vlans tok)
            \<and> list_all (\<lambda>(name, x). name = ''vlan/'' @ string_of_nat x) xs"
    using b by (rule mp)
  then show "\<exists>pre m post xs.
         ''a 3-5,9 b'' = pre @ m @ post \<and> vlan_list_form m
         \<and> vlans_of_text (Some ''a 3-5,9 b'') = Inr xs
         \<and> snd ` set xs = (\<Union>tok \<in> set (split_on (CHR '','') m). token_vlans tok)"
    apply (elim exE conjE)
    apply (intro exI conjI)
       apply assumption+
    done
qed

end
